theory Spec2Isabelle
  imports Main "HOL-Library.Word"
begin

unbundle bit_operations_syntax

section \<open>The ION system heap (drivers/gpu/ion/ion_system_heap.c)\<close>

text \<open>
  The target is a 32-bit ARM kernel (Exynos 5420): \<open>unsigned long\<close>, \<open>long\<close>,
  \<open>unsigned int\<close> and \<open>int\<close> are 32 bits wide and a page is 4096 bytes. Byte sizes
  are 32-bit words, so that \<open>+\<close> and \<open>-\<close> wrap as in C, and \<open>long\<close> reads the same
  word as two's complement. Orders and array indices are small numbers and are
  modelled as \<open>nat\<close>.
\<close>

subsection \<open>Constants\<close>

type_synonym ulong = "32 word"

text \<open>Modelled from the spec: \<open>PAGE_SIZE\<close>, \<open>PAGE_MASK\<close> and \<open>PAGE_ALIGN\<close> of asm/page.h and
  linux/mm.h, and \<open>ENOMEM\<close> of errno.h, which the file includes: a page of 4096 bytes
  (section 8), a size padded up to a whole number of pages (section 4.3, allocate,
  step 1), one out-of-memory code (section 7).\<close>

definition PAGE_SIZE :: ulong where
  "PAGE_SIZE = 4096"

definition PAGE_MASK :: ulong where
  "PAGE_MASK = NOT (PAGE_SIZE - 1)"

definition PAGE_ALIGN :: "ulong \<Rightarrow> ulong" where
  "PAGE_ALIGN addr = (addr + PAGE_SIZE - 1) AND PAGE_MASK"

definition ENOMEM :: int where
  "ENOMEM = 12"

text \<open>The two allocation-intent flag sets the file defines (section 6 of the spec).
  The flags of the metadata allocations (\<open>GFP_KERNEL\<close>) play no part and are left
  out.\<close>

datatype gfp = high_order_gfp_flags | low_order_gfp_flags

definition orders :: "nat list" where
  "orders = [8, 4, 0]"

definition num_orders :: nat where
  "num_orders = length orders"

text \<open>A crash of the kernel thread: \<open>BUG()\<close>, or the dereference of a null pointer.\<close>

datatype crash = BUG | OOPS

subsection \<open>order_to_index, order_to_size\<close>

text \<open>The \<open>for\<close> loop of \<open>order_to_index\<close>, from index \<open>i\<close> on; running off the
  array reaches \<open>BUG()\<close>.\<close>

fun order_to_index_from :: "nat \<Rightarrow> nat list \<Rightarrow> nat \<Rightarrow> crash + nat" where
  "order_to_index_from i [] order = Inl BUG"
| "order_to_index_from i (x # xs) order =
     (if order = x then Inr i else order_to_index_from (Suc i) xs order)"

definition order_to_index :: "nat \<Rightarrow> crash + nat" where
  "order_to_index order = order_to_index_from 0 orders order"

definition order_to_size :: "nat \<Rightarrow> ulong" where
  "order_to_size order = push_bit order PAGE_SIZE"

subsection \<open>Buffers, pages, scatter/gather tables\<close>

text \<open>
  Modelled from the spec: \<open>struct page\<close> and \<open>struct scatterlist\<close> of the host
  (section 3, "Page handle", "Run descriptor" and the entries of a scatter/gather
  table; section 9, "Per-page side-channel bits"). A \<open>struct page *\<close> is the page's
  frame number: \<open>page + i\<close> is \<open>pfn + i\<close>. The two scratch fields the file keeps on the
  head page of a run between the packing loop and the filling of the table
  (\<open>page->private\<close> for the order, the \<open>PG_ion_frompool\<close> bit) travel with the run.
  Every path of the file clears both before it lets go of a page, so a page that
  comes from a pool or from the host has them clear. An entry of a table holds the
  page it points to, a byte length and an offset.
\<close>

record page =
  pfn :: nat
  page_private :: nat
  frompool :: bool

definition new_page :: "nat \<Rightarrow> page" where
  "new_page p = \<lparr>pfn = p, page_private = 0, frompool = False\<rparr>"

definition ion_page_order :: "page \<Rightarrow> nat" where
  "ion_page_order pg = page_private pg"

definition ion_get_from_pool :: "page \<Rightarrow> bool" where
  "ion_get_from_pool pg = frompool pg"

record scatterlist =
  sg_page :: nat
  sg_dma_len :: ulong
  sg_offset :: ulong

type_synonym sg_table = "scatterlist list"

text \<open>What a \<open>void *\<close> or table pointer of a buffer can hold.\<close>

datatype pointer = NULL | Table sg_table | Kmem nat

text \<open>Modelled from the spec: the buffer flag bits (section 3, "Buffer"), whose
  values and test helpers (\<open>ion_buffer_cached\<close>, \<open>ion_buffer_fault_user_mappings\<close>,
  \<open>ion_buffer_sync_force\<close>, \<open>ion_buffer_set_ready\<close>) are declared in ion_priv.h:
  four independent recognized bits and a readiness latch.\<close>

datatype ion_flag = CACHED | FAULT_USER_MAPPINGS | NOZEROED | SYNC_FORCE

record ion_buffer =
  flags :: "ion_flag set"
  buffer_size :: ulong
  priv_virt :: pointer
  sg_table :: pointer
  ready :: bool

definition ion_buffer_cached :: "ion_buffer \<Rightarrow> bool" where
  "ion_buffer_cached buffer = (CACHED \<in> flags buffer)"

definition ion_buffer_fault_user_mappings :: "ion_buffer \<Rightarrow> bool" where
  "ion_buffer_fault_user_mappings buffer = (FAULT_USER_MAPPINGS \<in> flags buffer)"

definition ion_buffer_sync_force :: "ion_buffer \<Rightarrow> bool" where
  "ion_buffer_sync_force buffer = (SYNC_FORCE \<in> flags buffer)"

definition ion_buffer_set_ready :: "ion_buffer \<Rightarrow> ion_buffer" where
  "ion_buffer_set_ready buffer = buffer\<lparr>ready := True\<rparr>"

subsection \<open>The page pools and the host\<close>

text \<open>Modelled from the spec: \<open>struct ion_page_pool\<close> (section 3, "Page Pool"), declared in
  ion_priv.h: two LIFO stacks with their (\<open>int\<close>) counters, the refill flags and
  the order.\<close>

record ion_page_pool =
  high_count :: int
  low_count :: int
  high_items :: "nat list"
  low_items :: "nat list"
  gfp_mask :: gfp
  pool_order :: nat

text \<open>What the file does to the outside, in the order it does it.\<close>

datatype event =
    Alloc_pages gfp nat "nat option"
  | Split_page nat nat
  | Free_pages nat nat
  | Free_page nat
  | Pool_free nat nat
  | Zero_pages nat ulong
  | Device_sync sg_table
  | Kfree_table

text \<open>
  The state around one call. \<open>pools\<close> is \<open>heap->pools\<close>, indexed like \<open>orders\<close>.
  Pages from \<open>highmem_start\<close> on are high memory. \<open>buddy\<close> holds the answers of the
  host's page allocator to the calls of \<open>alloc_pages\<close>, in call order, and \<open>slab\<close>
  those of \<open>kmalloc\<close>, \<open>kzalloc\<close> and \<open>sg_alloc_table\<close> (an address, or \<open>None\<close> for
  a failure); an exhausted script fails. \<open>kmem\<close> is the content of the objects
  \<open>kzalloc\<close> handed out. \<open>others\<close> says, for each time \<open>alloc_largest_available\<close>
  has released a pool mutex and not yet called \<open>alloc_buffer_page\<close>, whether another
  thread completes an \<open>ion_page_pool_alloc\<close> in between, and on which pool.
\<close>

record world =
  pools :: "nat \<Rightarrow> ion_page_pool"
  highmem_start :: nat
  buddy :: "nat option list"
  slab :: "nat option list"
  kmem :: "nat \<Rightarrow> 8 word list option"
  others :: "nat option list"
  trace :: "event list"

text \<open>What a function that can crash gives back: the crash and the state it crashed
  in, or its value and the state it returns in.\<close>

type_synonym 'a result = "(crash \<times> world) + ('a \<times> world)"

fun world_of :: "'a result \<Rightarrow> world" where
  "world_of (Inl (c, w)) = w"
| "world_of (Inr (x, w)) = w"

definition emit :: "event \<Rightarrow> world \<Rightarrow> world" where
  "emit e w = w\<lparr>trace := trace w @ [e]\<rparr>"

text \<open>Modelled from the spec: the host's page allocator (section 3, "Page handle"):
  \<open>alloc_pages\<close> hands out a run of the given order or fails, \<open>split_page\<close> makes the
  pages of a run independent, \<open>__free_pages\<close> and \<open>__free_page\<close> take a run and a
  page back; \<open>PageHighMem\<close> tells the residency of a page.\<close>

definition PageHighMem :: "world \<Rightarrow> nat \<Rightarrow> bool" where
  "PageHighMem w p = (highmem_start w \<le> p)"

definition alloc_pages :: "gfp \<Rightarrow> nat \<Rightarrow> world \<Rightarrow> nat option \<times> world" where
  "alloc_pages gfp_flags order w =
     (case buddy w of
        [] \<Rightarrow> (None, emit (Alloc_pages gfp_flags order None) w)
      | r # rs \<Rightarrow> (r, emit (Alloc_pages gfp_flags order r) (w\<lparr>buddy := rs\<rparr>)))"

definition split_page :: "nat \<Rightarrow> nat \<Rightarrow> world \<Rightarrow> world" where
  "split_page p order w = emit (Split_page p order) w"

definition free_pages :: "nat \<Rightarrow> nat \<Rightarrow> world \<Rightarrow> world" where
  "free_pages p order w = emit (Free_pages p order) w"

definition free_page :: "nat \<Rightarrow> world \<Rightarrow> world" where
  "free_page p w = emit (Free_page p) w"

text \<open>Modelled from the spec: \<open>ion_page_pool_alloc\<close> of ion_page_pool.c (section 4.1,
  \<open>alloc()\<close>): the high stack first, then the low stack, then a fresh run from the
  host at the pool's order and flags; a stack hit decrements its counter.\<close>

definition ion_page_pool_alloc :: "nat \<Rightarrow> world \<Rightarrow> nat option \<times> world" where
  "ion_page_pool_alloc idx w =
     (let pool = pools w idx in
      case high_items pool of
        p # ps \<Rightarrow>
          (Some p, w\<lparr>pools := (pools w)(idx := pool\<lparr>high_items := ps,
                                                   high_count := high_count pool - 1\<rparr>)\<rparr>)
      | [] \<Rightarrow>
          (case low_items pool of
             p # ps \<Rightarrow>
               (Some p, w\<lparr>pools := (pools w)(idx := pool\<lparr>low_items := ps,
                                                        low_count := low_count pool - 1\<rparr>)\<rparr>)
           | [] \<Rightarrow> alloc_pages (gfp_mask pool) (pool_order pool) w))"

text \<open>Modelled from the spec: \<open>ion_page_pool_free\<close> of ion_page_pool.c (section 4.1,
  \<open>free(page)\<close>): the run is pushed on the high or the low stack by its residency
  and the matching counter goes up. The zeroing that section 4.1 refers to section
  4.3 for is the caller's \<open>ion_heap_buffer_zero\<close>, below.\<close>

definition ion_page_pool_free :: "nat \<Rightarrow> nat \<Rightarrow> world \<Rightarrow> world" where
  "ion_page_pool_free idx p w =
     (let pool = pools w idx in
      emit (Pool_free idx p)
        (if PageHighMem w p
         then w\<lparr>pools := (pools w)(idx := pool\<lparr>high_items := p # high_items pool,
                                                high_count := high_count pool + 1\<rparr>)\<rparr>
         else w\<lparr>pools := (pools w)(idx := pool\<lparr>low_items := p # low_items pool,
                                                low_count := low_count pool + 1\<rparr>)\<rparr>))"

text \<open>The window after \<open>mutex_unlock\<close>: the next entry of \<open>others\<close> is consumed, and
  names the pool on which another thread's \<open>ion_page_pool_alloc\<close> completes, if any.\<close>

definition others_run :: "world \<Rightarrow> world" where
  "others_run w =
     (case others w of
        [] \<Rightarrow> w
      | None # rest \<Rightarrow> w\<lparr>others := rest\<rparr>
      | Some idx # rest \<Rightarrow> snd (ion_page_pool_alloc idx (w\<lparr>others := rest\<rparr>)))"

text \<open>Modelled from the spec: \<open>kmalloc\<close>, \<open>kzalloc\<close> and \<open>sg_alloc_table\<close>, the host's
  general allocator (sections 4.3 and 4.4), which live outside this file. The spec
  names them only as the host's allocator; what they do is their kernel contract:
  \<open>kmalloc\<close> fails or hands out an object, \<open>kzalloc\<close> is \<open>kmalloc\<close> followed by
  zero-filling the \<open>len\<close> bytes of the object, \<open>sg_alloc_table\<close> fails with
  \<open>-ENOMEM\<close> or gives a table of \<open>nents\<close> blank entries.\<close>

definition kmalloc :: "world \<Rightarrow> nat option \<times> world" where
  "kmalloc w = (case slab w of [] \<Rightarrow> (None, w) | r # rs \<Rightarrow> (r, w\<lparr>slab := rs\<rparr>))"

definition kzalloc :: "ulong \<Rightarrow> world \<Rightarrow> nat option \<times> world" where
  "kzalloc len w =
     (case kmalloc w of
        (None, w1) \<Rightarrow> (None, w1)
      | (Some a, w1) \<Rightarrow> (Some a, w1\<lparr>kmem := (kmem w1)(a \<mapsto> replicate (unat len) 0)\<rparr>))"

definition sg_blank :: scatterlist where
  "sg_blank = \<lparr>sg_page = 0, sg_dma_len = 0, sg_offset = 0\<rparr>"

definition sg_alloc_table :: "nat \<Rightarrow> world \<Rightarrow> (int \<times> sg_table) \<times> world" where
  "sg_alloc_table nents w =
     (case kmalloc w of
        (None, w1) \<Rightarrow> ((- ENOMEM, []), w1)
      | (Some a, w1) \<Rightarrow> ((0, replicate nents sg_blank), w1))"

text \<open>\<open>sg_set_page\<close> on the entry at position \<open>sg\<close>. \<open>sg_next\<close> of the last entry is
  a null pointer, so a position past the table is a null dereference (\<open>None\<close>).\<close>

definition sg_set_page :: "sg_table \<Rightarrow> nat \<Rightarrow> nat \<Rightarrow> ulong \<Rightarrow> ulong \<Rightarrow> sg_table option" where
  "sg_set_page table sg p len off =
     (if sg < length table
      then Some (table[sg := \<lparr>sg_page = p, sg_dma_len = len, sg_offset = off\<rparr>])
      else None)"

text \<open>Modelled from the spec: \<open>get_order\<close> of asm-generic/getorder.h, as section 4.3 uses
  it on the free path: \<open>order = log2(length / page_size)\<close>, the logarithm rounded
  down and 0 for a length under two pages.\<close>

fun log2 :: "nat \<Rightarrow> nat" where
  "log2 n = (if n < 2 then 0 else Suc (log2 (n div 2)))"

declare log2.simps [simp del]

definition get_order :: "ulong \<Rightarrow> nat" where
  "get_order len = log2 (unat (len div PAGE_SIZE))"

text \<open>Modelled from the spec: \<open>ion_heap_buffer_zero\<close> of ion_heap.c (section 4.3, free,
  step 1): every page of the buffer's scatter/gather table is zeroed, entry by
  entry.\<close>

definition ion_heap_buffer_zero :: "ion_buffer \<Rightarrow> world \<Rightarrow> world" where
  "ion_heap_buffer_zero buffer w =
     (case sg_table buffer of
        Table table \<Rightarrow> fold (\<lambda>sg. emit (Zero_pages (sg_page sg) (sg_dma_len sg))) table w
      | _ \<Rightarrow> w)"

subsection \<open>alloc_buffer_page, free_buffer_page\<close>

definition alloc_buffer_page ::
  "ion_buffer \<Rightarrow> nat \<Rightarrow> world \<Rightarrow> page option result" where
  "alloc_buffer_page buffer order w =
     (let cached = ion_buffer_cached buffer;
          split_pages = ion_buffer_fault_user_mappings buffer
      in case order_to_index order of
           Inl c \<Rightarrow> Inl (c, w)
         | Inr idx \<Rightarrow>
             (case (if \<not> cached then ion_page_pool_alloc idx w
                    else alloc_pages (if order > 0 then high_order_gfp_flags
                                      else low_order_gfp_flags) order w) of
                (None, w1) \<Rightarrow> Inr (None, w1)
              | (Some p, w1) \<Rightarrow>
                  Inr (Some (new_page p),
                       if split_pages then split_page p order w1 else w1)))"

definition free_buffer_page ::
  "ion_buffer \<Rightarrow> nat \<Rightarrow> nat \<Rightarrow> world \<Rightarrow> unit result" where
  "free_buffer_page buffer p order w =
     (let cached = ion_buffer_cached buffer;
          split_pages = ion_buffer_fault_user_mappings buffer
      in if \<not> cached then
           (case order_to_index order of
              Inl c \<Rightarrow> Inl (c, w)
            | Inr idx \<Rightarrow> Inr ((), ion_page_pool_free idx p w))
         else if split_pages then
           Inr ((), fold (\<lambda>i. free_page (p + i)) [0..<2 ^ order] w)
         else Inr ((), free_pages p order w))"

subsection \<open>alloc_largest_available\<close>

text \<open>The \<open>for\<close> loop over \<open>orders\<close>, from the orders still to try on. \<open>from_pool\<close>
  is the local variable of that name: declared before the loop, set inside it.\<close>

fun alloc_largest_from ::
  "nat list \<Rightarrow> bool \<Rightarrow> ion_buffer \<Rightarrow> ulong \<Rightarrow> nat \<Rightarrow> world \<Rightarrow> page option result" where
  "alloc_largest_from [] from_pool buffer sz max_order w = Inr (None, w)"
| "alloc_largest_from (ord # rest) from_pool buffer sz max_order w =
     (if sz < order_to_size ord then
        alloc_largest_from rest from_pool buffer sz max_order w
      else if max_order < ord then
        alloc_largest_from rest from_pool buffer sz max_order w
      else
        (case (if \<not> ion_buffer_cached buffer then
                 (case order_to_index ord of
                    Inl c \<Rightarrow> Inl (c, w)
                  | Inr idx \<Rightarrow>
                      Inr (if high_count (pools w idx) > 0 \<or> low_count (pools w idx) > 0
                           then True else from_pool,
                           others_run w))
               else Inr (from_pool, w)) of
           Inl e \<Rightarrow> Inl e
         | Inr (from_pool1, w1) \<Rightarrow>
             (case alloc_buffer_page buffer ord w1 of
                Inl e \<Rightarrow> Inl e
              | Inr (None, w2) \<Rightarrow>
                  alloc_largest_from rest from_pool1 buffer sz max_order w2
              | Inr (Some pg, w2) \<Rightarrow>
                  Inr (Some (pg\<lparr>page_private := ord,
                                frompool := (if from_pool1 then True else frompool pg)\<rparr>),
                       w2))))"

definition alloc_largest_available ::
  "ion_buffer \<Rightarrow> ulong \<Rightarrow> nat \<Rightarrow> world \<Rightarrow> page option result" where
  "alloc_largest_available buffer sz max_order w =
     alloc_largest_from orders False buffer sz max_order w"

subsection \<open>ion_system_heap_allocate\<close>

text \<open>Facts needed to see that the packing loop ends: a run that
  \<open>alloc_largest_available\<close> hands back has an order of the array that fits the
  bytes still to serve, and taking its extent off a positive \<open>long\<close> leaves a
  smaller one that is not negative.\<close>

lemma alloc_largest_from_order:
  "alloc_largest_from os fp buffer sz max_order w = Inr (Some pg, w') \<Longrightarrow>
     page_private pg \<in> set os \<and> order_to_size (page_private pg) \<le> sz
       \<and> page_private pg \<le> max_order"
proof (induction os arbitrary: fp w)
  case Nil
  then show ?case by simp
next
  case (Cons ord rest)
  then show ?case
    by (auto split: if_splits sum.splits option.splits prod.splits)
qed

lemma order_to_size_eq:
  "ord \<in> set orders \<Longrightarrow> push_bit ord 1 * PAGE_SIZE = order_to_size ord"
  by (auto simp: orders_def order_to_size_def PAGE_SIZE_def)

lemma order_to_size_pos:
  "ord \<in> set orders \<Longrightarrow> 0 < uint (order_to_size ord)"
  by (auto simp: orders_def order_to_size_def PAGE_SIZE_def)

lemma sint_pos_uint:
  assumes "0 <s (sz :: ulong)"
  shows "sint sz = uint sz" and "uint sz < 2 ^ 31"
proof -
  have pos: "0 < sint sz" using assms by (simp add: word_sless_alt)
  have st: "sint sz = signed_take_bit 31 (uint sz)" by (simp add: sint_uint)
  have ub: "uint sz < 2 ^ 31"
  proof (rule ccontr)
    assume "\<not> uint sz < 2 ^ 31"
    then have "2 ^ 31 \<le> uint sz" by simp
    then have "signed_take_bit 31 (uint sz) \<le> uint sz - 2 ^ Suc 31"
      by (rule signed_take_bit_int_less_eq)
    moreover have "uint sz < 2 ^ 32" using uint_lt2p [of sz] by simp
    ultimately show False using pos st by simp
  qed
  then show "uint sz < 2 ^ 31" .
  have "signed_take_bit 31 (uint sz) = uint sz"
    using ub by (intro signed_take_bit_int_eq_self) (auto intro: order_trans [of _ 0])
  then show "sint sz = uint sz" using st by simp
qed

lemma size_remaining_decreases:
  assumes "0 <s (sz :: ulong)" and "d \<le> sz" and "0 < uint d"
  shows "sint (sz - d) < sint sz" and "0 \<le> sint (sz - d)"
    and "sint (sz - d) = sint sz - uint d"
proof -
  have a: "sint sz = uint sz" "uint sz < 2 ^ 31" using sint_pos_uint [OF assms(1)] by auto
  have le: "uint d \<le> uint sz" using assms(2) by (simp add: word_le_def)
  have sub: "uint (sz - d) = uint sz - uint d" using le by (simp add: uint_sub_lem)
  have "signed_take_bit 31 (uint (sz - d)) = uint (sz - d)"
    using a le sub assms(3)
    by (intro signed_take_bit_int_eq_self) (auto intro: order_trans [of _ 0])
  then have s: "sint (sz - d) = uint sz - uint d" using sub by (simp add: sint_uint)
  show "sint (sz - d) < sint sz" using s a assms(3) by simp
  show "0 \<le> sint (sz - d)" using s le by simp
  show "sint (sz - d) = sint sz - uint d" using s a by simp
qed

lemma pack_loop_measure:
  assumes pos: "0 <s size_remaining"
    and res: "alloc_largest_available buffer size_remaining max_order w = Inr (Some pg, w1)"
  shows "sint (size_remaining - 2 ^ ion_page_order pg * PAGE_SIZE) < sint size_remaining"
proof -
  have ord: "page_private pg \<in> set orders"
    "order_to_size (page_private pg) \<le> size_remaining"
    using alloc_largest_from_order [of orders False buffer size_remaining max_order w pg w1] res
    by (simp_all add: alloc_largest_available_def)
  have "sint (size_remaining - order_to_size (page_private pg)) < sint size_remaining"
    using size_remaining_decreases(1) [OF pos ord(2)] order_to_size_pos [OF ord(1)] by simp
  then show ?thesis
    using order_to_size_eq [OF ord(1)] by (simp add: ion_page_order_def)
qed

lemma sless_pos: "0 <s (sz :: ulong) \<Longrightarrow> 0 < sint sz"
  by (simp add: word_sless_alt)

text \<open>
  The \<open>while (size_remaining > 0)\<close> loop. \<open>size_remaining\<close> is a \<open>long\<close>: the test
  reads the word as signed, the call passes the same word as \<open>unsigned long\<close>.
  \<open>pages\<close> is the list \<open>list_add_tail\<close> builds and \<open>i\<close> the run counter. The result
  says whether the loop ran to its end (\<open>True\<close>) or left by \<open>goto err\<close> (\<open>False\<close>).
\<close>

function pack_loop ::
  "ion_buffer \<Rightarrow> ulong \<Rightarrow> nat \<Rightarrow> page list \<Rightarrow> nat \<Rightarrow> world
     \<Rightarrow> (bool \<times> page list \<times> nat) result" where
  "pack_loop buffer size_remaining max_order pages i w =
     (if 0 <s size_remaining then
        (case alloc_largest_available buffer size_remaining max_order w of
           Inl e \<Rightarrow> Inl e
         | Inr (None, w1) \<Rightarrow> Inr ((False, pages, i), w1)
         | Inr (Some pg, w1) \<Rightarrow>
             pack_loop buffer
               (size_remaining - push_bit (ion_page_order pg) 1 * PAGE_SIZE)
               (ion_page_order pg) (pages @ [pg]) (i + 1) w1)
      else Inr ((True, pages, i), w))"
  by pat_completeness auto
termination
  by (relation "measure (\<lambda>(buffer, size_remaining, max_order, pages, i, w).
                           nat (sint size_remaining))")
     (auto intro: pack_loop_measure sless_pos)

declare pack_loop.simps [simp del]

text \<open>The inner \<open>for\<close> loop of the split case: one entry of one page for each page
  \<open>page + i\<close> of the run.\<close>

fun fill_split :: "nat list \<Rightarrow> page \<Rightarrow> sg_table \<Rightarrow> nat \<Rightarrow> (sg_table \<times> nat) option" where
  "fill_split [] pg table sg = Some (table, sg)"
| "fill_split (i # rest) pg table sg =
     (case sg_set_page table sg (pfn pg + i) PAGE_SIZE 0 of
        None \<Rightarrow> None
      | Some table1 \<Rightarrow> fill_split rest pg table1 (Suc sg))"

text \<open>The \<open>list_for_each_entry_safe\<close> loop that fills the table: \<open>sg\<close> is the cursor
  into the table, \<open>all_pages_from_pool\<close> the local variable of that name.\<close>

fun fill_table ::
  "bool \<Rightarrow> page list \<Rightarrow> sg_table \<Rightarrow> nat \<Rightarrow> bool \<Rightarrow> (sg_table \<times> bool) option" where
  "fill_table split_pages [] table sg all_pages_from_pool =
     Some (table, all_pages_from_pool)"
| "fill_table split_pages (pg # rest) table sg all_pages_from_pool =
     (case (if split_pages then
              fill_split [0..<2 ^ ion_page_order pg] pg table sg
            else
              (case sg_set_page table sg (pfn pg)
                      (push_bit (ion_page_order pg) 1 * PAGE_SIZE) 0 of
                 None \<Rightarrow> None
               | Some table1 \<Rightarrow> Some (table1, Suc sg))) of
        None \<Rightarrow> None
      | Some (table1, sg1) \<Rightarrow>
          fill_table split_pages rest table1 sg1
            (if all_pages_from_pool \<and> \<not> ion_get_from_pool pg then False
             else all_pages_from_pool))"

text \<open>The loop under the label \<open>err\<close>: every page still on the list is handed to
  \<open>free_buffer_page\<close> with the order read from it.\<close>

fun free_collected :: "ion_buffer \<Rightarrow> page list \<Rightarrow> world \<Rightarrow> unit result" where
  "free_collected buffer [] w = Inr ((), w)"
| "free_collected buffer (pg # rest) w =
     (case free_buffer_page buffer (pfn pg) (ion_page_order pg) w of
        Inl e \<Rightarrow> Inl e
      | Inr (u, w1) \<Rightarrow> free_collected buffer rest w1)"

text \<open>The exit through \<open>err\<close>: the value returned and the buffer as it is left.\<close>

definition alloc_err :: "ion_buffer \<Rightarrow> page list \<Rightarrow> world \<Rightarrow> (int \<times> ion_buffer) result" where
  "alloc_err buffer pages w =
     (case free_collected buffer pages w of
        Inl e \<Rightarrow> Inl e
      | Inr (u, w1) \<Rightarrow> Inr ((- ENOMEM, buffer), w1))"

definition ion_system_heap_allocate ::
  "ion_buffer \<Rightarrow> ulong \<Rightarrow> ulong \<Rightarrow> ulong \<Rightarrow> world \<Rightarrow> (int \<times> ion_buffer) result" where
  "ion_system_heap_allocate buffer sz align flgs w =
     (let split_pages = ion_buffer_fault_user_mappings buffer in
      case pack_loop buffer (PAGE_ALIGN sz) (hd orders) [] 0 w of
        Inl e \<Rightarrow> Inl e
      | Inr ((False, pages, i), w1) \<Rightarrow> alloc_err buffer pages w1
      | Inr ((True, pages, i), w1) \<Rightarrow>
          (case kmalloc w1 of
             (None, w2) \<Rightarrow> alloc_err buffer pages w2
           | (Some a, w2) \<Rightarrow>
               (case sg_alloc_table
                       (if split_pages then unat (PAGE_ALIGN sz div PAGE_SIZE) else i) w2 of
                  ((ret, table), w3) \<Rightarrow>
                    if ret \<noteq> 0 then alloc_err buffer pages (emit Kfree_table w3)
                    else
                      (case fill_table split_pages pages table 0 True of
                         None \<Rightarrow> Inl (OOPS, w3)
                       | Some (table1, all_pages_from_pool) \<Rightarrow>
                           (let w4 = (if ion_buffer_sync_force buffer
                                      then emit (Device_sync table1) w3 else w3);
                                buffer1 = (if all_pages_from_pool \<or> ion_buffer_sync_force buffer
                                           then ion_buffer_set_ready buffer else buffer)
                            in Inr ((0, buffer1\<lparr>priv_virt := Table table1\<rparr>), w4))))))"

subsection \<open>ion_system_heap_free\<close>

text \<open>The \<open>for_each_sg\<close> loop of \<open>ion_system_heap_free\<close>.\<close>

fun free_sg_pages :: "ion_buffer \<Rightarrow> sg_table \<Rightarrow> world \<Rightarrow> unit result" where
  "free_sg_pages buffer [] w = Inr ((), w)"
| "free_sg_pages buffer (sg # rest) w =
     (case free_buffer_page buffer (sg_page sg) (get_order (sg_dma_len sg)) w of
        Inl e \<Rightarrow> Inl e
      | Inr (u, w1) \<Rightarrow> free_sg_pages buffer rest w1)"

definition ion_system_heap_free :: "ion_buffer \<Rightarrow> world \<Rightarrow> unit result" where
  "ion_system_heap_free buffer w =
     (case sg_table buffer of
        Table table \<Rightarrow>
          (let cached = ion_buffer_cached buffer;
               w1 = (if \<not> cached \<and> NOZEROED \<notin> flags buffer
                     then ion_heap_buffer_zero buffer w else w)
           in case free_sg_pages buffer table w1 of
                Inl e \<Rightarrow> Inl e
              | Inr (u, w2) \<Rightarrow> Inr ((), emit Kfree_table w2))
      | _ \<Rightarrow> Inl (OOPS, w))"

subsection \<open>The contiguous heap\<close>

definition ion_system_contig_heap_allocate ::
  "ion_buffer \<Rightarrow> ulong \<Rightarrow> ulong \<Rightarrow> ulong \<Rightarrow> world \<Rightarrow> (int \<times> ion_buffer) \<times> world" where
  "ion_system_contig_heap_allocate buffer len align flgs w =
     (case kzalloc len w of
        (None, w1) \<Rightarrow> ((- ENOMEM, buffer\<lparr>priv_virt := NULL\<rparr>), w1)
      | (Some a, w1) \<Rightarrow> ((0, buffer\<lparr>priv_virt := Kmem a\<rparr>), w1))"

subsection \<open>ion_system_heap_create\<close>

text \<open>Modelled from the spec: \<open>ion_page_pool_create\<close> of ion_page_pool.c (section 3,
  "Page Pool", lifecycle): a pool starts with both stacks empty.\<close>

definition ion_page_pool_create :: "gfp \<Rightarrow> nat \<Rightarrow> ion_page_pool" where
  "ion_page_pool_create gfp_flags order =
     \<lparr>high_count = 0, low_count = 0, high_items = [], low_items = [],
      gfp_mask = gfp_flags, pool_order = order\<rparr>"

text \<open>The pool array \<open>ion_system_heap_create\<close> builds when every allocation in it
  succeeds: pool \<open>i\<close> has order \<open>orders[i]\<close>, with the high-order flags above order 0.
  Slots past the array are never read; they hold order-0 pools.\<close>

definition ion_system_heap_create :: "nat \<Rightarrow> ion_page_pool" where
  "ion_system_heap_create i =
     (if i < num_orders
      then ion_page_pool_create
             (if orders ! i > 0 then high_order_gfp_flags else low_order_gfp_flags) (orders ! i)
      else ion_page_pool_create low_order_gfp_flags 0)"

subsection \<open>ion_system_heap_map_dma\<close>

definition ion_system_heap_map_dma :: "ion_buffer \<Rightarrow> pointer" where
  "ion_system_heap_map_dma buffer = priv_virt buffer"

section \<open>Notions the properties are stated with\<close>

subsection \<open>Runs and table entries\<close>

text \<open>The bytes of a list of runs, each run counted with the extent of its order.\<close>

definition run_bytes :: "page list \<Rightarrow> int" where
  "run_bytes pages = (\<Sum>pg\<leftarrow>pages. uint (order_to_size (ion_page_order pg)))"

text \<open>The entry \<open>sg_set_page\<close> writes for a whole run, the entry it writes for page
  \<open>i\<close> of a split run, the entries of one run and those of a list of runs, in the
  order the filling loop writes them.\<close>

definition run_entry :: "page \<Rightarrow> scatterlist" where
  "run_entry pg =
     \<lparr>sg_page = pfn pg, sg_dma_len = push_bit (ion_page_order pg) 1 * PAGE_SIZE, sg_offset = 0\<rparr>"

definition page_entry :: "page \<Rightarrow> nat \<Rightarrow> scatterlist" where
  "page_entry pg i = \<lparr>sg_page = pfn pg + i, sg_dma_len = PAGE_SIZE, sg_offset = 0\<rparr>"

definition entries_of :: "bool \<Rightarrow> page \<Rightarrow> scatterlist list" where
  "entries_of split_pages pg =
     (if split_pages then map (page_entry pg) [0..<2 ^ ion_page_order pg] else [run_entry pg])"

definition all_entries :: "bool \<Rightarrow> page list \<Rightarrow> scatterlist list" where
  "all_entries split_pages pages = concat (map (entries_of split_pages) pages)"

text \<open>The table a successful allocation stores for the runs \<open>pages\<close>: their entries,
  then the entries of the table that were never written, and the buffer it leaves.\<close>

definition filled_table :: "ion_buffer \<Rightarrow> ulong \<Rightarrow> page list \<Rightarrow> sg_table" where
  "filled_table buffer sz pages =
     (let split_pages = ion_buffer_fault_user_mappings buffer;
          nents = (if split_pages then unat (PAGE_ALIGN sz div PAGE_SIZE) else length pages)
      in all_entries split_pages pages
           @ replicate (nents - length (all_entries split_pages pages)) sg_blank)"

definition granted_buffer :: "ion_buffer \<Rightarrow> ulong \<Rightarrow> page list \<Rightarrow> ion_buffer" where
  "granted_buffer buffer sz pages =
     (if list_all ion_get_from_pool pages \<or> ion_buffer_sync_force buffer
      then ion_buffer_set_ready buffer else buffer)
       \<lparr>priv_virt := Table (filled_table buffer sz pages)\<rparr>"

subsection \<open>Events\<close>

text \<open>The events of one call of \<open>free_buffer_page\<close> that does not crash, of the
  release of a list of runs, and of the release of the entries of a table.\<close>

definition release_events :: "ion_buffer \<Rightarrow> nat \<Rightarrow> nat \<Rightarrow> event list" where
  "release_events buffer p ord =
     (if \<not> ion_buffer_cached buffer then
        (case order_to_index ord of Inl c \<Rightarrow> [] | Inr idx \<Rightarrow> [Pool_free idx p])
      else if ion_buffer_fault_user_mappings buffer then
        map (\<lambda>i. Free_page (p + i)) [0..<2 ^ ord]
      else [Free_pages p ord])"

definition released_runs :: "ion_buffer \<Rightarrow> page list \<Rightarrow> event list" where
  "released_runs buffer pages =
     concat (map (\<lambda>pg. release_events buffer (pfn pg) (ion_page_order pg)) pages)"

definition released_entries :: "ion_buffer \<Rightarrow> sg_table \<Rightarrow> event list" where
  "released_entries buffer table =
     concat (map (\<lambda>sg. release_events buffer (sg_page sg) (get_order (sg_dma_len sg))) table)"

text \<open>The release of a run, and of the entries of a table, straight to the host.\<close>

definition host_release :: "ion_buffer \<Rightarrow> nat \<Rightarrow> nat \<Rightarrow> event list" where
  "host_release buffer p ord =
     (if ion_buffer_fault_user_mappings buffer then map (\<lambda>i. Free_page (p + i)) [0..<2 ^ ord]
      else [Free_pages p ord])"

definition host_released :: "ion_buffer \<Rightarrow> sg_table \<Rightarrow> event list" where
  "host_released buffer table =
     concat (map (\<lambda>sg. host_release buffer (sg_page sg) (get_order (sg_dma_len sg))) table)"

text \<open>Zeroing events, and the zeroing of every entry of a table.\<close>

fun is_zeroing :: "event \<Rightarrow> bool" where
  "is_zeroing (Zero_pages p len) = True"
| "is_zeroing e = False"

definition zeroing_of :: "sg_table \<Rightarrow> event list" where
  "zeroing_of table = map (\<lambda>sg. Zero_pages (sg_page sg) (sg_dma_len sg)) table"

text \<open>Releases to the host.\<close>

definition is_host_free :: "event \<Rightarrow> bool" where
  "is_host_free e = (case e of Free_page p \<Rightarrow> True | Free_pages p ord \<Rightarrow> True | _ \<Rightarrow> False)"

text \<open>What a call on a cached buffer may do: ask the host for pages with the flag set
  that goes with the order, split, release to the host, sync, free the table; never
  return a page to a pool, never zero.\<close>

fun cached_event :: "event \<Rightarrow> bool" where
  "cached_event (Alloc_pages gfp_flags ord r) =
     (gfp_flags = (if ord > 0 then high_order_gfp_flags else low_order_gfp_flags))"
| "cached_event (Pool_free idx p) = False"
| "cached_event (Zero_pages p len) = False"
| "cached_event e = True"

text \<open>The runs the host handed out, with their orders, in the order of the calls.\<close>

fun host_runs :: "event list \<Rightarrow> (nat \<times> nat) list" where
  "host_runs [] = []"
| "host_runs (Alloc_pages gfp_flags ord (Some p) # es) = (p, ord) # host_runs es"
| "host_runs (e # es) = host_runs es"

subsection \<open>Pools\<close>

text \<open>The number of runs a pool holds by its counters, and the pool invariant of the
  spec (section 3): each counter is the length of its stack.\<close>

definition pooled :: "world \<Rightarrow> nat \<Rightarrow> int" where
  "pooled w idx = high_count (pools w idx) + low_count (pools w idx)"

definition pool_wf :: "ion_page_pool \<Rightarrow> bool" where
  "pool_wf pool = (high_count pool = int (length (high_items pool)) \<and>
                   low_count pool = int (length (low_items pool)))"

text \<open>The runs of a list that belong to the pool \<open>idx\<close>, the pages a pool holds, and
  what unwinding the runs \<open>pages\<close> from the state \<open>w1\<close> leaves in \<open>w'\<close>: the events
  \<open>kf\<close> and then the release of every run in order and, in each pool of the heap,
  nothing for a cached buffer and the runs of that pool pushed on it otherwise.\<close>

definition runs_at :: "nat \<Rightarrow> page list \<Rightarrow> page list" where
  "runs_at idx pages = filter (\<lambda>pg. order_to_index (ion_page_order pg) = Inr idx) pages"

definition pool_pages :: "world \<Rightarrow> nat \<Rightarrow> nat set" where
  "pool_pages w idx = set (high_items (pools w idx)) \<union> set (low_items (pools w idx))"

definition unwound :: "ion_buffer \<Rightarrow> page list \<Rightarrow> event list \<Rightarrow> world \<Rightarrow> world \<Rightarrow> bool" where
  "unwound buffer pages kf w1 w' =
     (trace w' = trace w1 @ kf @ released_runs buffer pages \<and>
      list_all (\<lambda>idx. if ion_buffer_cached buffer then pools w' idx = pools w1 idx
                      else pooled w' idx = pooled w1 idx + int (length (runs_at idx pages)) \<and>
                           pool_pages w' idx
                             = pool_pages w1 idx \<union> set (map pfn (runs_at idx pages)))
        [0..<num_orders])"

subsection \<open>Concrete states\<close>

text \<open>A heap as \<open>ion_system_heap_create\<close> leaves it, with the given answers of the
  page allocator, of the slab allocator and of the other threads; a buffer with the
  given flags that no heap has touched yet; and a buffer holding a table, as the
  core of ION sets it up after a successful allocation (\<open>buffer->sg_table\<close> is what
  \<open>map_dma\<close> returns).\<close>

definition boot_world :: "nat option list \<Rightarrow> nat option list \<Rightarrow> nat option list \<Rightarrow> world" where
  "boot_world bs ss os =
     \<lparr>pools = ion_system_heap_create, highmem_start = 196608, buddy = bs, slab = ss,
      kmem = (\<lambda>a. None), others = os, trace = []\<rparr>"

definition new_buffer :: "ion_flag set \<Rightarrow> ion_buffer" where
  "new_buffer fl =
     \<lparr>flags = fl, buffer_size = 0, priv_virt = NULL, sg_table = NULL, ready = False\<rparr>"

definition filled_buffer :: "ion_flag set \<Rightarrow> sg_table \<Rightarrow> ion_buffer" where
  "filled_buffer fl table =
     (let buffer = (new_buffer fl)\<lparr>priv_virt := Table table\<rparr>
      in buffer\<lparr>sg_table := ion_system_heap_map_dma buffer\<rparr>)"

text \<open>The pools of a heap whose order-8 pool holds one run (page 512, low memory), as
  the free of a 1 MiB non-cached buffer leaves them.\<close>

definition warm_pools :: "nat \<Rightarrow> ion_page_pool" where
  "warm_pools = ion_system_heap_create
     (0 := (ion_system_heap_create 0)\<lparr>low_count := 1, low_items := [512]\<rparr>)"

section \<open>Lemmas about the allocation path\<close>

subsection \<open>No crash while packing; what the packing loop returns\<close>

lemma order_to_index_eq:
  "order_to_index ord =
     (if ord = 8 then Inr 0 else if ord = 4 then Inr 1 else if ord = 0 then Inr 2 else Inl BUG)"
  by (simp add: order_to_index_def orders_def)

lemma order_to_index_orders:
  "ord \<in> set orders \<Longrightarrow> \<exists>idx. order_to_index ord = Inr idx \<and> idx < num_orders"
  by (auto simp: order_to_index_eq orders_def num_orders_def)

lemma alloc_buffer_page_returns:
  "ord \<in> set orders \<Longrightarrow> \<exists>x w'. alloc_buffer_page buffer ord w = Inr (x, w')"
  by (auto simp: alloc_buffer_page_def order_to_index_eq orders_def Let_def
           split: prod.splits option.splits)

lemma alloc_largest_from_returns:
  "set os \<subseteq> set orders \<Longrightarrow>
     \<exists>x w'. alloc_largest_from os fp buffer sz max_order w = Inr (x, w')"
proof (induction os arbitrary: fp w)
  case Nil
  then show ?case by simp
next
  case (Cons ord rest)
  then have ord: "ord \<in> set orders" and rest: "set rest \<subseteq> set orders" by auto
  obtain idx where idx: "order_to_index ord = Inr idx"
    using order_to_index_orders [OF ord] by blast
  have step: "\<exists>x w'. (case alloc_buffer_page buffer ord w1 of
                 Inl e \<Rightarrow> Inl e
               | Inr (None, w2) \<Rightarrow> alloc_largest_from rest fp1 buffer sz max_order w2
               | Inr (Some pg, w2) \<Rightarrow>
                  Inr (Some (pg\<lparr>page_private := ord,
                                frompool := (if fp1 then True else frompool pg)\<rparr>), w2))
              = Inr (x, w')" for fp1 w1
  proof -
    obtain y w2 where y: "alloc_buffer_page buffer ord w1 = Inr (y, w2)"
      using alloc_buffer_page_returns [OF ord] by blast
    show ?thesis using Cons.IH [OF rest, of fp1 w2] y by (cases y) auto
  qed
  show ?case
    using Cons.IH [OF rest, of fp w] step idx by (simp split del: if_split) auto
qed

lemma alloc_largest_available_returns:
  "\<exists>x w'. alloc_largest_available buffer sz max_order w = Inr (x, w')"
  unfolding alloc_largest_available_def by (rule alloc_largest_from_returns) simp


lemma run_bytes_simps [simp]:
  "run_bytes [] = 0"
  "run_bytes (pg # pages) = uint (order_to_size (ion_page_order pg)) + run_bytes pages"
  by (simp_all add: run_bytes_def)

lemma run_bytes_nonneg: "0 \<le> run_bytes pages"
  by (induction pages) simp_all

lemma pack_loop_props:
  "\<exists>ok new w'.
     pack_loop buffer size_remaining max_order pages i w
       = Inr ((ok, pages @ new, i + length new), w') \<and>
     (\<forall>pg \<in> set new. ion_page_order pg \<in> set orders \<and> ion_page_order pg \<le> max_order) \<and>
     sorted_wrt (\<ge>) (map ion_page_order new) \<and>
     (ok \<longrightarrow> run_bytes new = (if 0 <s size_remaining then sint size_remaining else 0))"
proof (induction buffer size_remaining max_order pages i w rule: pack_loop.induct)
  case (1 buffer size_remaining max_order pages i w)
  show ?case
  proof (cases "0 <s size_remaining")
    case False
    then have "pack_loop buffer size_remaining max_order pages i w
                 = Inr ((True, pages @ [], i + length ([] :: page list)), w)"
      by (simp add: pack_loop.simps [of buffer size_remaining])
    then show ?thesis using False by (intro exI [of _ True] exI [of _ "[]"] exI [of _ w]) simp
  next
    case pos: True
    obtain x w1 where ala: "alloc_largest_available buffer size_remaining max_order w = Inr (x, w1)"
      using alloc_largest_available_returns by blast
    show ?thesis
    proof (cases x)
      case None
      then have "pack_loop buffer size_remaining max_order pages i w
                   = Inr ((False, pages @ [], i + length ([] :: page list)), w1)"
        using pos ala by (simp add: pack_loop.simps [of buffer size_remaining])
      then show ?thesis by (intro exI [of _ False] exI [of _ "[]"] exI [of _ w1]) simp
    next
      case (Some pg)
      let ?d = "push_bit (ion_page_order pg) 1 * PAGE_SIZE"
      have ord: "ion_page_order pg \<in> set orders"
        "order_to_size (ion_page_order pg) \<le> size_remaining"
        "ion_page_order pg \<le> max_order"
        using alloc_largest_from_order [of orders False buffer size_remaining max_order w pg w1]
          ala Some by (simp_all add: alloc_largest_available_def ion_page_order_def)
      have d: "?d = order_to_size (ion_page_order pg)"
        using order_to_size_eq [OF ord(1)] .
      from "1.IH" [OF pos ala refl Some]
      obtain ok new w' where
        rec: "pack_loop buffer (size_remaining - ?d) (ion_page_order pg) (pages @ [pg]) (i + 1) w1
                = Inr ((ok, (pages @ [pg]) @ new, i + 1 + length new), w')"
        and new: "\<forall>q \<in> set new. ion_page_order q \<in> set orders
                      \<and> ion_page_order q \<le> ion_page_order pg"
        and srt: "sorted_wrt (\<ge>) (map ion_page_order new)"
        and sum: "ok \<longrightarrow> run_bytes new
                    = (if 0 <s size_remaining - ?d then sint (size_remaining - ?d) else 0)"
        by blast
      have eq: "pack_loop buffer size_remaining max_order pages i w
                  = Inr ((ok, pages @ (pg # new), i + length (pg # new)), w')"
        using pos ala Some rec by (simp add: pack_loop.simps [of buffer size_remaining])
      have dec: "0 \<le> sint (size_remaining - ?d)"
        "sint (size_remaining - ?d) = sint size_remaining - uint ?d"
        using size_remaining_decreases(2,3) [OF pos, of ?d] ord(2) order_to_size_pos [OF ord(1)] d
        by simp_all
      have total: "ok \<longrightarrow> run_bytes (pg # new) = sint size_remaining"
        using sum dec d by (auto simp: word_sless_alt)
      have bounds: "\<forall>q \<in> set (pg # new). ion_page_order q \<in> set orders
                      \<and> ion_page_order q \<le> max_order"
        using new ord by auto
      have srt': "sorted_wrt (\<ge>) (map ion_page_order (pg # new))"
        using srt new by simp
      show ?thesis
        using eq bounds srt' total pos
        by (intro exI [of _ ok] exI [of _ "pg # new"] exI [of _ w']) simp
    qed
  qed
qed


lemma take_Suc_update:
  "sg < length table \<Longrightarrow> take (Suc sg) (table[sg := e]) = take sg table @ [e]"
  by (simp add: take_Suc_conv_app_nth)

lemma drop_Suc_update:
  "drop (Suc (sg + n)) (table[sg := e]) = drop (Suc (sg + n)) table"
  by simp

lemma fill_split_eq:
  "sg \<le> length table \<Longrightarrow> fill_split is pg table sg =
     (if sg + length is \<le> length table
      then Some (take sg table @ map (page_entry pg) is @ drop (sg + length is) table,
                 sg + length is)
      else None)"
proof (induction "is" arbitrary: table sg)
  case Nil
  then show ?case by simp
next
  case (Cons i rest)
  show ?case
  proof (cases "sg < length table")
    case False
    then show ?thesis by (simp add: sg_set_page_def)
  next
    case True
    let ?t = "table[sg := \<lparr>sg_page = pfn pg + i, sg_dma_len = PAGE_SIZE, sg_offset = 0\<rparr>]"
    have "Suc sg \<le> length ?t" using True by simp
    from Cons.IH [OF this] True show ?thesis
      by (simp add: sg_set_page_def take_Suc_update drop_Suc_update page_entry_def)
  qed
qed

lemma fill_table_eq:
  "sg \<le> length table \<Longrightarrow> fill_table split_pages pages table sg all_from_pool =
     (if sg + length (all_entries split_pages pages) \<le> length table
      then Some (take sg table @ all_entries split_pages pages
                   @ drop (sg + length (all_entries split_pages pages)) table,
                 all_from_pool \<and> list_all ion_get_from_pool pages)
      else None)"
proof (induction pages arbitrary: table sg all_from_pool)
  case Nil
  then show ?case by (simp add: all_entries_def)
next
  case (Cons pg rest)
  let ?es = "entries_of split_pages pg"
  let ?n = "length ?es"
  have ents: "all_entries split_pages (pg # rest) = ?es @ all_entries split_pages rest"
    by (simp add: all_entries_def)
  have step: "(if split_pages then fill_split [0..<2 ^ ion_page_order pg] pg table sg
               else (case sg_set_page table sg (pfn pg)
                            (push_bit (ion_page_order pg) 1 * PAGE_SIZE) 0 of
                       None \<Rightarrow> None
                     | Some table1 \<Rightarrow> Some (table1, Suc sg)))
              = (if sg + ?n \<le> length table
                 then Some (take sg table @ ?es @ drop (sg + ?n) table, sg + ?n)
                 else None)"
  proof (cases split_pages)
    case True
    then show ?thesis using fill_split_eq [OF Cons.prems] by (simp add: entries_of_def)
  next
    case False
    then show ?thesis
      by (auto simp: sg_set_page_def entries_of_def run_entry_def upd_conv_take_nth_drop)
  qed
  show ?case
  proof (cases "sg + ?n \<le> length table")
    case False
    then show ?thesis using step by (simp add: ents)
  next
    case True
    define t where "t = take sg table @ ?es @ drop (sg + ?n) table"
    define k where "k = sg + ?n"
    define R where "R = all_entries split_pages rest"
    define a where "a = (if all_from_pool \<and> \<not> ion_get_from_pool pg then False else all_from_pool)"
    have len: "length t = length table" using True by (simp add: t_def)
    have le: "k \<le> length t" using True len by (simp add: k_def)
    have tk: "take k t = take sg table @ ?es" using True by (simp add: t_def k_def)
    have dr: "drop (k + length R) t = drop (k + length R) table"
      using True by (simp add: t_def k_def add.commute add.left_commute)
    have lhs: "fill_table split_pages (pg # rest) table sg all_from_pool
                 = fill_table split_pages rest t k a"
      using step True by (simp add: t_def k_def a_def)
    have rec: "fill_table split_pages rest t k a =
                 (if k + length R \<le> length table
                  then Some (take sg table @ ?es @ R @ drop (k + length R) table,
                             a \<and> list_all ion_get_from_pool rest)
                  else None)"
      using Cons.IH [OF le, of a] by (simp add: R_def [symmetric] tk dr len)
    have a: "(a \<and> list_all ion_get_from_pool rest)
               = (all_from_pool \<and> list_all ion_get_from_pool (pg # rest))"
      by (auto simp: a_def)
    have k: "k + length R = sg + length (all_entries split_pages (pg # rest))"
      by (simp add: k_def R_def ents)
    show ?thesis
      unfolding lhs rec a k by (simp add: ents R_def)
  qed
qed

subsection \<open>Every exit of ion_system_heap_allocate\<close>

lemma length_entries_of:
  "length (entries_of split_pages pg) = (if split_pages then 2 ^ ion_page_order pg else 1)"
  by (simp add: entries_of_def)

lemma uint_order_to_size:
  "ord \<in> set orders \<Longrightarrow> uint (order_to_size ord) = 4096 * 2 ^ ord"
  by (auto simp: orders_def order_to_size_def PAGE_SIZE_def)

lemma run_bytes_pages:
  "\<forall>pg \<in> set pages. ion_page_order pg \<in> set orders \<Longrightarrow>
     run_bytes pages = 4096 * int (length (all_entries True pages))"
  by (induction pages) (simp_all add: all_entries_def length_entries_of uint_order_to_size)

lemma run_bytes_zero:
  "\<forall>pg \<in> set pages. ion_page_order pg \<in> set orders \<Longrightarrow> run_bytes pages = 0 \<Longrightarrow> pages = []"
proof (cases pages)
  case Nil
  then show ?thesis by simp
next
  case (Cons pg rest)
  assume ords: "\<forall>pg \<in> set pages. ion_page_order pg \<in> set orders"
    and zero: "run_bytes pages = 0"
  have "0 < uint (order_to_size (ion_page_order pg))"
    using order_to_size_pos [of "ion_page_order pg"] ords Cons by simp
  moreover have "0 \<le> run_bytes rest" by (rule run_bytes_nonneg)
  ultimately show ?thesis using zero Cons by simp
qed

lemma entries_fit:
  assumes ords: "\<forall>pg \<in> set pages. ion_page_order pg \<in> set orders"
    and sum: "run_bytes pages = (if 0 <s sz then sint sz else 0)"
  shows "length (all_entries True pages) = (if 0 <s sz then unat (sz div PAGE_SIZE) else 0)"
proof (cases "0 <s sz")
  case False
  then have "pages = []" using run_bytes_zero [OF ords] sum by simp
  then show ?thesis using False by (simp add: all_entries_def)
next
  case True
  have "uint sz = 4096 * int (length (all_entries True pages))"
    using sum True run_bytes_pages [OF ords] sint_pos_uint(1) [OF True] by simp
  then have "uint (sz div PAGE_SIZE) = int (length (all_entries True pages))"
    by (simp add: uint_div_distrib PAGE_SIZE_def)
  then have "unat (sz div PAGE_SIZE) = length (all_entries True pages)"
    by (simp add: unat_eq_nat_uint del: nat_uint_eq)
  then show ?thesis using True by simp
qed


lemma emit_simps [simp]:
  "trace (emit e w) = trace w @ [e]"
  "pools (emit e w) = pools w"
  "highmem_start (emit e w) = highmem_start w"
  "buddy (emit e w) = buddy w"
  "slab (emit e w) = slab w"
  "others (emit e w) = others w"
  "kmem (emit e w) = kmem w"
  by (simp_all add: emit_def)

lemma fold_free_page:
  "trace (fold (\<lambda>i. free_page (p + i)) is w) = trace w @ map (\<lambda>i. Free_page (p + i)) is"
  "pools (fold (\<lambda>i. free_page (p + i)) is w) = pools w"
  by (induction "is" arbitrary: w) (simp_all add: free_page_def)

lemma ion_page_pool_free_trace:
  "trace (ion_page_pool_free idx p w) = trace w @ [Pool_free idx p]"
  by (simp add: ion_page_pool_free_def Let_def)

lemma free_buffer_page_props:
  assumes "ion_buffer_cached buffer \<or> ord \<in> set orders"
  shows "\<exists>w'. free_buffer_page buffer p ord w = Inr ((), w') \<and>
           trace w' = trace w @ release_events buffer p ord \<and>
           (ion_buffer_cached buffer \<longrightarrow> pools w' = pools w)"
proof (cases "ion_buffer_cached buffer")
  case True
  then show ?thesis
    by (simp add: free_buffer_page_def release_events_def fold_free_page free_pages_def)
next
  case False
  then obtain idx where "order_to_index ord = Inr idx"
    using assms order_to_index_orders by blast
  then show ?thesis using False
    by (simp add: free_buffer_page_def release_events_def ion_page_pool_free_trace)
qed

lemma free_collected_props:
  "\<forall>pg \<in> set pages. ion_page_order pg \<in> set orders \<Longrightarrow>
     \<exists>w'. free_collected buffer pages w = Inr ((), w') \<and>
          trace w' = trace w @ released_runs buffer pages \<and>
          (ion_buffer_cached buffer \<longrightarrow> pools w' = pools w)"
proof (induction pages arbitrary: w)
  case Nil
  then show ?case by (simp add: released_runs_def)
next
  case (Cons pg rest)
  obtain w1 where w1: "free_buffer_page buffer (pfn pg) (ion_page_order pg) w = Inr ((), w1)"
      "trace w1 = trace w @ release_events buffer (pfn pg) (ion_page_order pg)"
      "ion_buffer_cached buffer \<longrightarrow> pools w1 = pools w"
    using free_buffer_page_props [of buffer "ion_page_order pg" "pfn pg" w] Cons.prems by auto
  obtain w' where w': "free_collected buffer rest w1 = Inr ((), w')"
      "trace w' = trace w1 @ released_runs buffer rest"
      "ion_buffer_cached buffer \<longrightarrow> pools w' = pools w1"
    using Cons.IH [of w1] Cons.prems by auto
  show ?case using w1 w' by (simp add: released_runs_def)
qed

lemma alloc_err_props:
  "\<forall>pg \<in> set pages. ion_page_order pg \<in> set orders \<Longrightarrow>
     \<exists>w'. alloc_err buffer pages w = Inr ((- ENOMEM, buffer), w') \<and>
          trace w' = trace w @ released_runs buffer pages \<and>
          (ion_buffer_cached buffer \<longrightarrow> pools w' = pools w)"
  using free_collected_props [of pages buffer w] by (auto simp: alloc_err_def)

lemma kmalloc_props:
  "kmalloc w = (x, w') \<Longrightarrow> trace w' = trace w \<and> pools w' = pools w"
  by (auto simp: kmalloc_def split: list.splits)

lemma sg_alloc_table_props:
  "sg_alloc_table nents w = ((ret, table), w') \<Longrightarrow>
     trace w' = trace w \<and> pools w' = pools w \<and>
     (ret = 0 \<longrightarrow> table = replicate nents sg_blank) \<and> (ret \<noteq> 0 \<longrightarrow> ret = - ENOMEM)"
  by (auto simp: sg_alloc_table_def kmalloc_def ENOMEM_def split: list.splits option.splits)


lemma all_entries_unsplit: "all_entries False pages = map run_entry pages"
  by (induction pages) (simp_all add: all_entries_def entries_of_def)

lemma allocate_cases:
  "\<exists>ok pages w1.
     pack_loop buffer (PAGE_ALIGN sz) (hd orders) [] 0 w = Inr ((ok, pages, length pages), w1) \<and>
     (\<forall>pg \<in> set pages. ion_page_order pg \<in> set orders) \<and>
     sorted_wrt (\<ge>) (map ion_page_order pages) \<and>
     (ok \<longrightarrow> run_bytes pages = (if 0 <s PAGE_ALIGN sz then sint (PAGE_ALIGN sz) else 0)) \<and>
     ((\<exists>w' kf. ion_system_heap_allocate buffer sz align flgs w = Inr ((- ENOMEM, buffer), w') \<and>
               (kf = [] \<or> kf = [Kfree_table]) \<and>
               trace w' = trace w1 @ kf @ released_runs buffer pages \<and>
               (ion_buffer_cached buffer \<longrightarrow> pools w' = pools w1))
      \<or> (ok \<and> (\<exists>w'. ion_system_heap_allocate buffer sz align flgs w
                         = Inr ((0, granted_buffer buffer sz pages), w') \<and>
                       trace w' = trace w1 @ (if ion_buffer_sync_force buffer
                                              then [Device_sync (filled_table buffer sz pages)]
                                              else []) \<and>
                       pools w' = pools w1)))"
proof -
  let ?A = "PAGE_ALIGN sz"
  let ?split = "ion_buffer_fault_user_mappings buffer"
  obtain ok pages w1 where
    pack: "pack_loop buffer ?A (hd orders) [] 0 w = Inr ((ok, pages, length pages), w1)"
    and ords: "\<forall>pg \<in> set pages. ion_page_order pg \<in> set orders"
    and srt: "sorted_wrt (\<ge>) (map ion_page_order pages)"
    and sum: "ok \<longrightarrow> run_bytes pages = (if 0 <s ?A then sint ?A else 0)"
    using pack_loop_props [of buffer ?A "hd orders" "[]" 0 w] by auto
  have "(\<exists>w' kf. ion_system_heap_allocate buffer sz align flgs w = Inr ((- ENOMEM, buffer), w') \<and>
               (kf = [] \<or> kf = [Kfree_table]) \<and>
               trace w' = trace w1 @ kf @ released_runs buffer pages \<and>
               (ion_buffer_cached buffer \<longrightarrow> pools w' = pools w1))
      \<or> (ok \<and> (\<exists>w'. ion_system_heap_allocate buffer sz align flgs w
                         = Inr ((0, granted_buffer buffer sz pages), w') \<and>
                       trace w' = trace w1 @ (if ion_buffer_sync_force buffer
                                              then [Device_sync (filled_table buffer sz pages)]
                                              else []) \<and>
                       pools w' = pools w1))"
  proof (cases ok)
    case False
    then have "ion_system_heap_allocate buffer sz align flgs w = alloc_err buffer pages w1"
      using pack by (simp add: ion_system_heap_allocate_def)
    then show ?thesis using alloc_err_props [OF ords, of buffer w1] by auto
  next
    case True
    obtain x w2 where k1: "kmalloc w1 = (x, w2)" by (cases "kmalloc w1")
    note p1 = kmalloc_props [OF k1]
    show ?thesis
    proof (cases x)
      case None
      then have "ion_system_heap_allocate buffer sz align flgs w = alloc_err buffer pages w2"
        using pack True k1 by (simp add: ion_system_heap_allocate_def)
      then show ?thesis using alloc_err_props [OF ords, of buffer w2] p1 by auto
    next
      case (Some a)
      let ?nents = "if ?split then unat (?A div PAGE_SIZE) else length pages"
      obtain ret table w3 where k2: "sg_alloc_table ?nents w2 = ((ret, table), w3)"
        by (cases "sg_alloc_table ?nents w2") auto
      note p2 = sg_alloc_table_props [OF k2]
      show ?thesis
      proof (cases "ret = 0")
        case False
        then have "ion_system_heap_allocate buffer sz align flgs w
                     = alloc_err buffer pages (emit Kfree_table w3)"
          using pack True k1 Some k2 by (simp add: ion_system_heap_allocate_def)
        then show ?thesis
          using alloc_err_props [OF ords, of buffer "emit Kfree_table w3"] p1 p2 by auto
      next
        case zero: True
        then have table: "table = replicate ?nents sg_blank" using p2 by simp
        have fit: "length (all_entries ?split pages) \<le> ?nents"
        proof (cases ?split)
          case False
          then show ?thesis by (simp add: all_entries_unsplit)
        next
          case split: True
          show ?thesis using entries_fit [OF ords, of ?A] sum True split by simp
        qed
        have fill: "fill_table ?split pages table 0 True
                      = Some (filled_table buffer sz pages, list_all ion_get_from_pool pages)"
          using fit by (simp add: fill_table_eq table filled_table_def)
        show ?thesis
          using pack True k1 Some k2 zero fill p1 p2
          by (simp add: ion_system_heap_allocate_def granted_buffer_def)
      qed
    qed
  qed
  then show ?thesis using pack ords srt sum by blast
qed

subsection \<open>get_order on the extents of the order set\<close>

lemma log2_1 [simp]: "log2 1 = 0" "log2 (Suc 0) = 0" "log2 0 = 0"
  by (simp_all add: log2.simps [of 1] log2.simps [of "Suc 0"] log2.simps [of 0])

lemma log2_double: "0 < n \<Longrightarrow> log2 (2 * n) = Suc (log2 n)"
  by (subst log2.simps) simp

lemma log2_Bit0 [simp]: "log2 (numeral (Num.Bit0 k)) = Suc (log2 (numeral k))"
proof -
  have "numeral (Num.Bit0 k) = 2 * (numeral k :: nat)"
    by (metis mult_2 numeral_Bit0)
  then show ?thesis using log2_double [of "numeral k"] by simp
qed

lemma get_order_orders: "ord \<in> set orders \<Longrightarrow> get_order (order_to_size ord) = ord"
  by (auto simp: orders_def get_order_def order_to_size_def PAGE_SIZE_def)

section \<open>Lemmas about the free path\<close>

lemma release_events_not_zeroing: "list_all (\<lambda>e. \<not> is_zeroing e) (release_events buffer p ord)"
  by (auto simp: release_events_def list_all_iff split: sum.splits)

lemma released_entries_not_zeroing:
  "list_all (\<lambda>e. \<not> is_zeroing e) (released_entries buffer table)"
  by (induction table) (simp_all add: released_entries_def release_events_not_zeroing)

lemma fold_emit_trace:
  "trace (fold (\<lambda>x. emit (f x)) xs w) = trace w @ map f xs"
  "pools (fold (\<lambda>x. emit (f x)) xs w) = pools w"
  "highmem_start (fold (\<lambda>x. emit (f x)) xs w) = highmem_start w"
  by (induction xs arbitrary: w) simp_all

lemma ion_heap_buffer_zero_props:
  "sg_table buffer = Table table \<Longrightarrow>
     trace (ion_heap_buffer_zero buffer w) = trace w @ zeroing_of table \<and>
     pools (ion_heap_buffer_zero buffer w) = pools w \<and>
     highmem_start (ion_heap_buffer_zero buffer w) = highmem_start w"
  by (simp add: ion_heap_buffer_zero_def zeroing_of_def fold_emit_trace)

text \<open>The free loop in general: it may stop at \<open>BUG()\<close>, and up to there it has
  released a front part of the table.\<close>

lemma free_buffer_page_any:
  "\<exists>evs. trace (world_of (free_buffer_page buffer p ord w)) = trace w @ evs \<and>
         list_all (\<lambda>e. \<not> is_zeroing e) evs"
proof (cases "ion_buffer_cached buffer \<or> ord \<in> set orders")
  case True
  from free_buffer_page_props [OF this, of p w] show ?thesis
    using release_events_not_zeroing by auto
next
  case False
  then have "order_to_index ord = Inl BUG"
    by (auto simp: order_to_index_eq orders_def)
  then show ?thesis using False by (simp add: free_buffer_page_def)
qed

lemma free_sg_pages_any:
  "\<exists>evs. trace (world_of (free_sg_pages buffer table w)) = trace w @ evs \<and>
         list_all (\<lambda>e. \<not> is_zeroing e) evs"
proof (induction table arbitrary: w)
  case Nil
  then show ?case by simp
next
  case (Cons sg rest)
  obtain evs where evs:
    "trace (world_of (free_buffer_page buffer (sg_page sg) (get_order (sg_dma_len sg)) w))
       = trace w @ evs" "list_all (\<lambda>e. \<not> is_zeroing e) evs"
    using free_buffer_page_any by blast
  show ?case
  proof (cases "free_buffer_page buffer (sg_page sg) (get_order (sg_dma_len sg)) w")
    case (Inl e)
    then show ?thesis using evs by (cases e) auto
  next
    case (Inr r)
    obtain u w1 where r: "r = (u, w1)" by (cases r)
    obtain evs1 where "trace (world_of (free_sg_pages buffer rest w1)) = trace w1 @ evs1"
      "list_all (\<lambda>e. \<not> is_zeroing e) evs1"
      using Cons.IH by blast
    then show ?thesis using evs Inr r by auto
  qed
qed

lemma free_sg_pages_props:
  "ion_buffer_cached buffer \<or> (\<forall>sg \<in> set table. get_order (sg_dma_len sg) \<in> set orders) \<Longrightarrow>
     \<exists>w'. free_sg_pages buffer table w = Inr ((), w') \<and>
          trace w' = trace w @ released_entries buffer table \<and>
          (ion_buffer_cached buffer \<longrightarrow> pools w' = pools w)"
proof (induction table arbitrary: w)
  case Nil
  then show ?case by (simp add: released_entries_def)
next
  case (Cons sg rest)
  have "ion_buffer_cached buffer \<or> get_order (sg_dma_len sg) \<in> set orders"
    using Cons.prems by auto
  from free_buffer_page_props [OF this, of "sg_page sg" w]
  obtain w1 where w1:
    "free_buffer_page buffer (sg_page sg) (get_order (sg_dma_len sg)) w = Inr ((), w1)"
    "trace w1 = trace w @ release_events buffer (sg_page sg) (get_order (sg_dma_len sg))"
    "ion_buffer_cached buffer \<longrightarrow> pools w1 = pools w"
    by blast
  obtain w' where w': "free_sg_pages buffer rest w1 = Inr ((), w')"
    "trace w' = trace w1 @ released_entries buffer rest"
    "ion_buffer_cached buffer \<longrightarrow> pools w' = pools w1"
    using Cons.IH [of w1] Cons.prems by auto
  show ?case using w1 w' by (simp add: released_entries_def)
qed

subsection \<open>One-page entries of a non-cached buffer\<close>

lemma get_order_PAGE_SIZE: "get_order PAGE_SIZE = 0"
  by (simp add: get_order_def PAGE_SIZE_def)

lemma ion_page_pool_free_props:
  "pooled (ion_page_pool_free idx p w) idx = pooled w idx + 1"
  "idx' \<noteq> idx \<Longrightarrow> pools (ion_page_pool_free idx p w) idx' = pools w idx'"
  "highmem_start (ion_page_pool_free idx p w) = highmem_start w"
  by (simp_all add: ion_page_pool_free_def pooled_def Let_def)

lemma free_single_pages:
  assumes "\<not> ion_buffer_cached buffer"
    and "\<forall>sg \<in> set table. sg_dma_len sg = PAGE_SIZE"
  shows "\<exists>w'. free_sg_pages buffer table w = Inr ((), w') \<and>
           pooled w' 2 = pooled w 2 + int (length table) \<and>
           (\<forall>idx. idx \<noteq> 2 \<longrightarrow> pools w' idx = pools w idx) \<and>
           trace w' = trace w @ map (\<lambda>sg. Pool_free 2 (sg_page sg)) table"
  using assms(2)
proof (induction table arbitrary: w)
  case Nil
  then show ?case by simp
next
  case (Cons sg rest)
  let ?w1 = "ion_page_pool_free 2 (sg_page sg) w"
  have step: "free_buffer_page buffer (sg_page sg) (get_order (sg_dma_len sg)) w = Inr ((), ?w1)"
    using assms(1) Cons.prems
    by (simp add: free_buffer_page_def get_order_PAGE_SIZE order_to_index_eq)
  obtain w' where w': "free_sg_pages buffer rest ?w1 = Inr ((), w')"
    "pooled w' 2 = pooled ?w1 2 + int (length rest)"
    "\<forall>idx. idx \<noteq> 2 \<longrightarrow> pools w' idx = pools ?w1 idx"
    "trace w' = trace ?w1 @ map (\<lambda>sg. Pool_free 2 (sg_page sg)) rest"
    using Cons.IH [of ?w1] Cons.prems by auto
  show ?case
    using step w' by (simp add: ion_page_pool_free_props ion_page_pool_free_trace)
qed

subsection \<open>Calls that return\<close>

lemma allocate_returns:
  "\<exists>ret buffer' w'. ion_system_heap_allocate buffer sz align flgs w = Inr ((ret, buffer'), w')"
  using allocate_cases [of buffer sz w align flgs] by blast

lemma free_returns:
  assumes "sg_table buffer = Table table"
    and "\<forall>sg \<in> set table. get_order (sg_dma_len sg) \<in> set orders"
  shows "\<exists>w'. ion_system_heap_free buffer w = Inr ((), w')"
proof -
  define w1 where "w1 = (if \<not> ion_buffer_cached buffer \<and> NOZEROED \<notin> flags buffer
                         then ion_heap_buffer_zero buffer w else w)"
  obtain w2 where "free_sg_pages buffer table w1 = Inr ((), w2)"
    using free_sg_pages_props [of buffer table w1] assms(2) by blast
  then show ?thesis using assms(1) by (simp add: ion_system_heap_free_def w1_def)
qed

section \<open>Lemmas about cached buffers\<close>

lemma host_runs_append: "host_runs (es @ es') = host_runs es @ host_runs es'"
  by (induction es rule: host_runs.induct) simp_all

lemma release_events_cached:
  "ion_buffer_cached buffer \<Longrightarrow> release_events buffer p ord = host_release buffer p ord"
  by (simp add: release_events_def host_release_def)

lemma host_release_props:
  "list_all cached_event (host_release buffer p ord)" "host_runs (host_release buffer p ord) = []"
proof -
  have "list_all cached_event (map (\<lambda>i. Free_page (p + i)) is)"
    "host_runs (map (\<lambda>i. Free_page (p + i)) is) = []" for "is"
    by (induction "is") simp_all
  then show "list_all cached_event (host_release buffer p ord)"
    "host_runs (host_release buffer p ord) = []"
    by (simp_all add: host_release_def)
qed

lemma released_runs_cached:
  "ion_buffer_cached buffer \<Longrightarrow>
     list_all cached_event (released_runs buffer pages) \<and>
     host_runs (released_runs buffer pages) = []"
  by (induction pages)
     (simp_all add: released_runs_def release_events_cached host_release_props host_runs_append)

lemma cached_alloc_buffer_page:
  assumes "ion_buffer_cached buffer" and "ord \<in> set orders"
  shows "\<exists>x w' evs. alloc_buffer_page buffer ord w = Inr (x, w') \<and> pools w' = pools w \<and>
           trace w' = trace w @ evs \<and> list_all cached_event evs \<and>
           host_runs evs = (case x of None \<Rightarrow> [] | Some pg \<Rightarrow> [(pfn pg, ord)]) \<and>
           (\<forall>pg. x = Some pg \<longrightarrow> \<not> frompool pg)"
proof -
  obtain idx where idx: "order_to_index ord = Inr idx"
    using order_to_index_orders [OF assms(2)] by blast
  show ?thesis
  proof (cases "buddy w")
    case Nil
    then show ?thesis using assms(1) idx
      by (simp add: alloc_buffer_page_def alloc_pages_def)
  next
    case (Cons r rs)
    then show ?thesis using assms(1) idx
      by (cases r) (simp_all add: alloc_buffer_page_def alloc_pages_def new_page_def split_page_def)
  qed
qed


lemma cached_alloc_largest_from:
  assumes cached: "ion_buffer_cached buffer"
  shows "set os \<subseteq> set orders \<Longrightarrow>
     \<exists>x w' evs. alloc_largest_from os fp buffer sz max_order w = Inr (x, w') \<and>
        pools w' = pools w \<and> trace w' = trace w @ evs \<and> list_all cached_event evs \<and>
        host_runs evs = (case x of None \<Rightarrow> [] | Some pg \<Rightarrow> [(pfn pg, ion_page_order pg)])"
proof (induction os arbitrary: w)
  case Nil
  then show ?case by simp
next
  case (Cons ord rest)
  then have ord: "ord \<in> set orders" and rest: "set rest \<subseteq> set orders" by auto
  show ?case
  proof (cases "sz < order_to_size ord \<or> max_order < ord")
    case True
    then show ?thesis using Cons.IH [OF rest, of w] by auto
  next
    case False
    from cached_alloc_buffer_page [OF cached ord, of w]
    obtain x w1 evs1 where a: "alloc_buffer_page buffer ord w = Inr (x, w1)"
      "pools w1 = pools w" "trace w1 = trace w @ evs1" "list_all cached_event evs1"
      "host_runs evs1 = (case x of None \<Rightarrow> [] | Some pg \<Rightarrow> [(pfn pg, ord)])"
      by blast
    show ?thesis
    proof (cases x)
      case None
      from Cons.IH [OF rest, of w1]
      obtain y w' evs where r: "alloc_largest_from rest fp buffer sz max_order w1 = Inr (y, w')"
        "pools w' = pools w1" "trace w' = trace w1 @ evs" "list_all cached_event evs"
        "host_runs evs = (case y of None \<Rightarrow> [] | Some pg \<Rightarrow> [(pfn pg, ion_page_order pg)])"
        by blast
      have "alloc_largest_from (ord # rest) fp buffer sz max_order w = Inr (y, w')"
        using False cached a(1) None r(1) by simp
      moreover have "trace w' = trace w @ (evs1 @ evs)" using a(3) r(3) by simp
      moreover have "host_runs (evs1 @ evs)
                       = (case y of None \<Rightarrow> [] | Some pg \<Rightarrow> [(pfn pg, ion_page_order pg)])"
        using a(5) r(5) None by (simp add: host_runs_append)
      moreover have "list_all cached_event (evs1 @ evs)" using a(4) r(4) by simp
      moreover have "pools w' = pools w" using a(2) r(2) by simp
      ultimately show ?thesis by blast
    next
      case (Some pg)
      let ?pg = "pg\<lparr>page_private := ord, frompool := (if fp then True else frompool pg)\<rparr>"
      have "alloc_largest_from (ord # rest) fp buffer sz max_order w = Inr (Some ?pg, w1)"
        using False cached a(1) Some by simp
      moreover have "host_runs evs1
                       = (case Some ?pg of None \<Rightarrow> [] | Some q \<Rightarrow> [(pfn q, ion_page_order q)])"
        using a(5) Some by (simp add: ion_page_order_def)
      ultimately show ?thesis using a(2,3,4) by blast
    qed
  qed
qed

lemma cached_alloc_largest_available:
  "ion_buffer_cached buffer \<Longrightarrow>
     \<exists>x w' evs. alloc_largest_available buffer sz max_order w = Inr (x, w') \<and>
        pools w' = pools w \<and> trace w' = trace w @ evs \<and> list_all cached_event evs \<and>
        host_runs evs = (case x of None \<Rightarrow> [] | Some pg \<Rightarrow> [(pfn pg, ion_page_order pg)])"
  unfolding alloc_largest_available_def by (rule cached_alloc_largest_from) simp_all

lemma cached_pack_loop:
  "ion_buffer_cached buffer \<Longrightarrow>
     \<exists>ok new w' evs.
           pack_loop buffer size_remaining max_order pages i w
             = Inr ((ok, pages @ new, i + length new), w') \<and>
           pools w' = pools w \<and> trace w' = trace w @ evs \<and> list_all cached_event evs \<and>
           host_runs evs = map (\<lambda>pg. (pfn pg, ion_page_order pg)) new"
proof (induction buffer size_remaining max_order pages i w rule: pack_loop.induct)
  case (1 buffer size_remaining max_order pages i w)
  note cached = \<open>ion_buffer_cached buffer\<close>
  show ?case
  proof (cases "0 <s size_remaining")
    case False
    then have "pack_loop buffer size_remaining max_order pages i w
                 = Inr ((True, pages @ [], i + length ([] :: page list)), w)"
      by (simp add: pack_loop.simps [of buffer size_remaining])
    then show ?thesis
      by (intro exI [of _ True] exI [of _ "[]"] exI [of _ w]) simp
  next
    case pos: True
    from cached_alloc_largest_available [OF cached, of size_remaining max_order w]
    obtain x w1 evs1 where
      ala: "alloc_largest_available buffer size_remaining max_order w = Inr (x, w1)"
      and p1: "pools w1 = pools w" "trace w1 = trace w @ evs1" "list_all cached_event evs1"
        "host_runs evs1 = (case x of None \<Rightarrow> [] | Some pg \<Rightarrow> [(pfn pg, ion_page_order pg)])"
      by blast
    show ?thesis
    proof (cases x)
      case None
      then have "pack_loop buffer size_remaining max_order pages i w
                   = Inr ((False, pages @ [], i + length ([] :: page list)), w1)"
        using pos ala by (simp add: pack_loop.simps [of buffer size_remaining])
      then show ?thesis using p1 None
        by (intro exI [of _ False] exI [of _ "[]"] exI [of _ w1] exI [of _ evs1]) simp
    next
      case (Some pg)
      let ?d = "push_bit (ion_page_order pg) 1 * PAGE_SIZE"
      from "1.IH" [OF pos ala refl Some cached]
      obtain ok new w' evs where
        rec: "pack_loop buffer (size_remaining - ?d) (ion_page_order pg) (pages @ [pg]) (i + 1) w1
                = Inr ((ok, (pages @ [pg]) @ new, i + 1 + length new), w')"
        and p2: "pools w' = pools w1" "trace w' = trace w1 @ evs" "list_all cached_event evs"
          "host_runs evs = map (\<lambda>pg. (pfn pg, ion_page_order pg)) new"
        by blast
      have eq: "pack_loop buffer size_remaining max_order pages i w
                  = Inr ((ok, pages @ (pg # new), i + length (pg # new)), w')"
        using pos ala Some rec by (simp add: pack_loop.simps [of buffer size_remaining])
      have "trace w' = trace w @ (evs1 @ evs)" using p1 p2 by simp
      moreover have "host_runs (evs1 @ evs) = map (\<lambda>pg. (pfn pg, ion_page_order pg)) (pg # new)"
        using p1 p2 Some by (simp add: host_runs_append)
      moreover have "list_all cached_event (evs1 @ evs)" using p1 p2 by simp
      moreover have "pools w' = pools w" using p1 p2 by simp
      ultimately show ?thesis using eq
        by (intro exI [of _ ok] exI [of _ "pg # new"] exI [of _ w'] exI [of _ "evs1 @ evs"]) simp
    qed
  qed
qed

lemma released_entries_cached:
  "ion_buffer_cached buffer \<Longrightarrow> released_entries buffer table = host_released buffer table"
  by (simp add: released_entries_def host_released_def release_events_cached)

lemma get_order_values:
  "get_order 0x100000 = 8" "get_order 0x10000 = 4" "get_order 0x1000 = 0"
  using get_order_orders [of 8] get_order_orders [of 4] get_order_orders [of 0]
  by (simp_all add: orders_def order_to_size_def PAGE_SIZE_def)

section \<open>Running the model on concrete states\<close>

text \<open>The definitions a concrete run unfolds.\<close>

lemmas eval_simps =
  ion_system_heap_allocate_def pack_loop.simps alloc_largest_available_def
  PAGE_ALIGN_def PAGE_SIZE_def PAGE_MASK_def orders_def new_buffer_def boot_world_def
  order_to_size_def ion_buffer_cached_def order_to_index_def alloc_buffer_page_def
  ion_page_pool_alloc_def ion_system_heap_create_def ion_page_pool_create_def num_orders_def
  alloc_pages_def others_run_def new_page_def ion_buffer_fault_user_mappings_def
  ion_page_order_def kmalloc_def sg_alloc_table_def sg_set_page_def
  ion_buffer_sync_force_def ion_get_from_pool_def word_sless_alt Let_def
  alloc_err_def free_buffer_page_def ion_page_pool_free_def PageHighMem_def
  ion_buffer_set_ready_def sg_blank_def free_pages_def free_page_def split_page_def
  ion_system_heap_free_def ion_heap_buffer_zero_def get_order_def ENOMEM_def emit_def

lemma granted_table_unsplit:
  "\<not> ion_buffer_fault_user_mappings buffer \<Longrightarrow>
     filled_table buffer sz pages = map run_entry pages"
  by (simp add: filled_table_def all_entries_unsplit)

lemma run_entry_len:
  "ion_page_order pg \<in> set orders \<Longrightarrow>
     sg_dma_len (run_entry pg) = order_to_size (ion_page_order pg)"
  using order_to_size_eq [of "ion_page_order pg"] by (simp add: run_entry_def)

lemma filled_buffer_eq:
  "filled_buffer fl table = (new_buffer fl)\<lparr>priv_virt := Table table, sg_table := Table table\<rparr>"
  by (simp add: filled_buffer_def ion_system_heap_map_dma_def)

lemmas free_eval_simps = eval_simps filled_buffer_eq zeroing_of_def order_to_index_eq

section \<open>Lemmas about sizes and labels\<close>

lemma sum_blank: "(\<Sum>sg\<leftarrow>replicate n sg_blank. uint (sg_dma_len sg)) = 0"
  by (induction n) (simp_all add: sg_blank_def)

lemma sum_entries:
  "\<forall>pg \<in> set pages. ion_page_order pg \<in> set orders \<Longrightarrow>
     (\<Sum>sg\<leftarrow>all_entries split_pages pages. uint (sg_dma_len sg)) = run_bytes pages"
proof (induction pages)
  case Nil
  then show ?case by (simp add: all_entries_def)
next
  case (Cons pg rest)
  have "(\<Sum>sg\<leftarrow>entries_of split_pages pg. uint (sg_dma_len sg))
          = uint (order_to_size (ion_page_order pg))"
  proof (cases split_pages)
    case True
    have "(\<Sum>sg\<leftarrow>map (page_entry pg) is. uint (sg_dma_len sg)) = 4096 * int (length is)" for "is"
      by (induction "is") (simp_all add: page_entry_def PAGE_SIZE_def)
    then show ?thesis using True Cons.prems
      by (simp add: entries_of_def uint_order_to_size)
  next
    case False
    then show ?thesis using Cons.prems by (simp add: entries_of_def run_entry_len)
  qed
  then show ?case using Cons by (simp add: all_entries_def)
qed

lemma size_fidelity_in_range:
  assumes pos: "0 <s PAGE_ALIGN sz"
    and ok: "ion_system_heap_allocate buffer sz align flgs w = Inr ((0, buffer'), w')"
  shows "\<exists>pages w1 table.
           pack_loop buffer (PAGE_ALIGN sz) (hd orders) [] 0 w
             = Inr ((True, pages, length pages), w1) \<and> pages \<noteq> [] \<and>
           priv_virt buffer' = Table table \<and>
           (\<Sum>sg\<leftarrow>table. uint (sg_dma_len sg)) = uint (PAGE_ALIGN sz)"
proof -
  from allocate_cases [of buffer sz w align flgs] ok pos
  obtain pages w1 where
    pack: "pack_loop buffer (PAGE_ALIGN sz) (hd orders) [] 0 w
             = Inr ((True, pages, length pages), w1)"
    and ords: "\<forall>pg \<in> set pages. ion_page_order pg \<in> set orders"
    and sum: "run_bytes pages = sint (PAGE_ALIGN sz)"
    and b': "buffer' = granted_buffer buffer sz pages"
    by (auto simp: ENOMEM_def)
  have A: "sint (PAGE_ALIGN sz) = uint (PAGE_ALIGN sz)" "0 < sint (PAGE_ALIGN sz)"
    using sint_pos_uint(1) [OF pos] sless_pos [OF pos] by simp_all
  have ne: "pages \<noteq> []" using sum A by auto
  have fit: "length (all_entries True pages) = unat (PAGE_ALIGN sz div PAGE_SIZE)"
    using entries_fit [OF ords, of "PAGE_ALIGN sz"] sum pos by simp
  have tbl: "filled_table buffer sz pages
               = all_entries (ion_buffer_fault_user_mappings buffer) pages"
    using fit by (simp add: filled_table_def all_entries_unsplit)
  have "(\<Sum>sg\<leftarrow>filled_table buffer sz pages. uint (sg_dma_len sg)) = uint (PAGE_ALIGN sz)"
    using sum_entries [OF ords] sum A tbl by simp
  then show ?thesis using pack ne b' by (auto simp: granted_buffer_def)
qed

lemma undisturbed_pool_alloc:
  assumes "pool_wf (pools w idx)"
    and "high_count (pools w idx) > 0 \<or> low_count (pools w idx) > 0"
  shows "\<exists>p w'. ion_page_pool_alloc idx w = (Some p, w')"
  using assms by (auto simp: ion_page_pool_alloc_def pool_wf_def Let_def split: list.splits)

lemma empty_pool_alloc:
  assumes "pool_wf (pools w idx)"
    and "\<not> (high_count (pools w idx) > 0 \<or> low_count (pools w idx) > 0)"
    and "ion_page_pool_alloc idx w = (x, w')"
  shows "pools w' = pools w \<and> others w' = others w"
  using assms
  by (auto simp: ion_page_pool_alloc_def pool_wf_def Let_def alloc_pages_def emit_def
           split: list.splits)

lemma label_exact_when_undisturbed:
  assumes nc: "\<not> ion_buffer_cached buffer"
  shows "set os \<subseteq> set orders \<Longrightarrow> others w = [] \<Longrightarrow> \<forall>idx. pool_wf (pools w idx) \<Longrightarrow>
     alloc_largest_from os False buffer sz max_order w = Inr (Some pg, w') \<Longrightarrow>
     \<exists>idx. order_to_index (ion_page_order pg) = Inr idx \<and>
           (ion_get_from_pool pg \<longleftrightarrow>
              high_count (pools w idx) > 0 \<or> low_count (pools w idx) > 0)"
proof (induction os arbitrary: w)
  case Nil
  then show ?case by simp
next
  case (Cons ord rest)
  then have ord: "ord \<in> set orders" and rest: "set rest \<subseteq> set orders" by auto
  obtain idx where idx: "order_to_index ord = Inr idx"
    using order_to_index_orders [OF ord] by blast
  have quiet: "others_run w = w" using Cons.prems(2) by (simp add: others_run_def)
  have wf: "pool_wf (pools w idx)" using Cons.prems(3) by simp
  show ?case
  proof (cases "sz < order_to_size ord \<or> max_order < ord")
    case True
    then have "alloc_largest_from (ord # rest) False buffer sz max_order w
                 = alloc_largest_from rest False buffer sz max_order w"
      by auto
    then show ?thesis using Cons.IH [OF rest Cons.prems(2,3)] Cons.prems(4) by simp
  next
    case tried: False
    show ?thesis
    proof (cases "high_count (pools w idx) > 0 \<or> low_count (pools w idx) > 0")
      case True
      from undisturbed_pool_alloc [OF wf True]
      obtain p w1 where "ion_page_pool_alloc idx w = (Some p, w1)" by blast
      then have "alloc_largest_from (ord # rest) False buffer sz max_order w
          = Inr (Some ((new_page p)\<lparr>page_private := ord, frompool := True\<rparr>),
                 if ion_buffer_fault_user_mappings buffer then split_page p ord w1 else w1)"
        using tried nc idx True quiet by (simp add: alloc_buffer_page_def)
      then show ?thesis using Cons.prems(4) idx True
        by (auto simp: ion_page_order_def ion_get_from_pool_def)
    next
      case False
      obtain x w1 where pa: "ion_page_pool_alloc idx w = (x, w1)"
        by (cases "ion_page_pool_alloc idx w")
      note same = empty_pool_alloc [OF wf False pa]
      show ?thesis
      proof (cases x)
        case None
        then have "alloc_largest_from (ord # rest) False buffer sz max_order w
            = alloc_largest_from rest False buffer sz max_order w1"
          using tried nc idx False quiet pa by (simp add: alloc_buffer_page_def)
        then show ?thesis
          using Cons.IH [OF rest, of w1] Cons.prems same by simp
      next
        case (Some p)
        then have "alloc_largest_from (ord # rest) False buffer sz max_order w
            = Inr (Some ((new_page p)\<lparr>page_private := ord, frompool := False\<rparr>),
                   if ion_buffer_fault_user_mappings buffer then split_page p ord w1 else w1)"
          using tried nc idx False quiet pa
          by (simp add: alloc_buffer_page_def new_page_def)
        then show ?thesis using Cons.prems(4) idx False
          by (auto simp: ion_page_order_def ion_get_from_pool_def)
      qed
    qed
  qed
qed

section \<open>Lemmas about unwinding\<close>

text \<open>What \<open>ion_page_pool_free\<close> does to the pages of the pools, what the loop
  after \<open>err\<close> leaves in the pools for a non-cached buffer, and the error path as
  a whole.\<close>

lemma pool_pages_free:
  "pool_pages (ion_page_pool_free idx p w) idx = insert p (pool_pages w idx)"
  "idx' \<noteq> idx \<Longrightarrow> pool_pages (ion_page_pool_free idx p w) idx' = pool_pages w idx'"
  "idx' \<noteq> idx \<Longrightarrow> pooled (ion_page_pool_free idx p w) idx' = pooled w idx'"
  by (auto simp: ion_page_pool_free_def pool_pages_def pooled_def Let_def)

lemma free_collected_pools:
  assumes nc: "\<not> ion_buffer_cached buffer"
  shows "\<forall>pg \<in> set pages. ion_page_order pg \<in> set orders \<Longrightarrow>
     free_collected buffer pages w = Inr ((), w') \<Longrightarrow>
     pooled w' idx = pooled w idx + int (length (runs_at idx pages)) \<and>
     pool_pages w' idx = pool_pages w idx \<union> set (map pfn (runs_at idx pages))"
proof (induction pages arbitrary: w)
  case Nil
  then show ?case by (simp add: runs_at_def)
next
  case (Cons pg rest)
  obtain k where k: "order_to_index (ion_page_order pg) = Inr k"
    using Cons.prems(1) order_to_index_orders [of "ion_page_order pg"] by auto
  let ?w1 = "ion_page_pool_free k (pfn pg) w"
  have step: "free_buffer_page buffer (pfn pg) (ion_page_order pg) w = Inr ((), ?w1)"
    using nc k by (simp add: free_buffer_page_def)
  then have rest: "free_collected buffer rest ?w1 = Inr ((), w')"
    using Cons.prems(2) by simp
  have IH: "pooled w' idx = pooled ?w1 idx + int (length (runs_at idx rest)) \<and>
     pool_pages w' idx = pool_pages ?w1 idx \<union> set (map pfn (runs_at idx rest))"
    using Cons.IH [OF _ rest] Cons.prems(1) by simp
  show ?case
  proof (cases "k = idx")
    case True
    then show ?thesis using IH k
      by (simp add: runs_at_def ion_page_pool_free_props pool_pages_free)
  next
    case False
    then show ?thesis using IH k
      by (simp add: runs_at_def pool_pages_free)
  qed
qed

lemma alloc_err_unwound:
  assumes ords: "\<forall>pg \<in> set pages. ion_page_order pg \<in> set orders"
    and tr: "trace w0 = trace w1 @ kf"
    and ps: "pools w0 = pools w1"
  shows "\<exists>w'. alloc_err buffer pages w0 = Inr ((- ENOMEM, buffer), w') \<and>
              unwound buffer pages kf w1 w'"
proof -
  obtain w' where fc: "free_collected buffer pages w0 = Inr ((), w')"
    and t: "trace w' = trace w0 @ released_runs buffer pages"
    and c: "ion_buffer_cached buffer \<longrightarrow> pools w' = pools w0"
    using free_collected_props [OF ords, of buffer w0] by blast
  have eq: "pooled w0 idx = pooled w1 idx" "pool_pages w0 idx = pool_pages w1 idx" for idx
    using ps by (simp_all add: pooled_def pool_pages_def)
  have "unwound buffer pages kf w1 w'"
  proof (cases "ion_buffer_cached buffer")
    case True
    then show ?thesis using t tr c ps by (simp add: unwound_def list_all_iff)
  next
    case False
    show ?thesis using t tr False free_collected_pools [OF False ords fc] eq
      by (simp add: unwound_def list_all_iff)
  qed
  then show ?thesis using fc by (auto simp: alloc_err_def)
qed

lemmas unwound_simps = unwound_def released_runs_def release_events_def runs_at_def
  order_to_index_eq pooled_def pool_pages_def ion_buffer_cached_def new_buffer_def
  ion_page_order_def num_orders_def orders_def ion_system_heap_create_def
  ion_page_pool_create_def boot_world_def kmalloc_def sg_alloc_table_def
  ion_buffer_fault_user_mappings_def ENOMEM_def

section \<open>Properties\<close>

subsection \<open>The contiguous heap hands out zeroed memory\<close>

text \<open>
  C10. Whenever \<open>ion_system_contig_heap_allocate\<close> succeeds (returns 0) for \<open>len\<close>
  bytes, the buffer's \<open>priv_virt\<close> points to an object whose \<open>len\<close> bytes are all
  zero at return: the object comes from \<open>kzalloc\<close>.
\<close>

theorem contig_allocate_zero_filled:
  "ion_system_contig_heap_allocate buffer len align flgs w = ((0, buffer'), w') \<Longrightarrow>
     \<exists>a. priv_virt buffer' = Kmem a \<and> kmem w' a = Some (replicate (unat len) 0)"
  by (auto simp: ion_system_contig_heap_allocate_def kzalloc_def kmalloc_def ENOMEM_def
           split: list.splits option.splits prod.splits)

theorem contig_allocate_zero_filled_witness:
  "fst (fst (ion_system_contig_heap_allocate (new_buffer {}) 8 0 0
               (boot_world [] [Some 7] []))) = 0 \<and>
   (\<exists>a. priv_virt (snd (fst (ion_system_contig_heap_allocate (new_buffer {}) 8 0 0
                               (boot_world [] [Some 7] [])))) = Kmem a \<and>
        kmem (snd (ion_system_contig_heap_allocate (new_buffer {}) 8 0 0
                     (boot_world [] [Some 7] []))) a = Some (replicate (unat (8 :: ulong)) 0))"
proof -
  obtain b' w' where h: "ion_system_contig_heap_allocate (new_buffer {}) 8 0 0
      (boot_world [] [Some 7] []) = ((0, b'), w')"
    by (simp add: ion_system_contig_heap_allocate_def kzalloc_def kmalloc_def boot_world_def)
  from contig_allocate_zero_filled [OF h] show ?thesis by (simp add: h)
qed

subsection \<open>Pack monotonicity\<close>

text \<open>
  C4. When \<open>ion_system_heap_allocate\<close> succeeds for a buffer without
  \<open>FAULT_USER_MAPPINGS\<close>, every entry of the table it stores has the extent of an
  order of the order set, and the orders of the entries, read back from the lengths
  the way the free path does, never increase along the table: no entry is of a larger
  order than an entry before it.
\<close>

theorem orders_non_increasing:
  assumes unsplit: "\<not> ion_buffer_fault_user_mappings buffer"
    and ok: "ion_system_heap_allocate buffer sz align flgs w = Inr ((0, buffer'), w')"
  shows "\<exists>table. priv_virt buffer' = Table table \<and>
           (\<forall>sg \<in> set table. \<exists>ord \<in> set orders. sg_dma_len sg = order_to_size ord) \<and>
           sorted_wrt (\<ge>) (map (\<lambda>sg. get_order (sg_dma_len sg)) table)"
proof -
  from allocate_cases [of buffer sz w align flgs] ok
  obtain pages where ords: "\<forall>pg \<in> set pages. ion_page_order pg \<in> set orders"
    and srt: "sorted_wrt (\<ge>) (map ion_page_order pages)"
    and b': "buffer' = granted_buffer buffer sz pages"
    by (auto simp: ENOMEM_def)
  have table: "priv_virt buffer' = Table (map run_entry pages)"
    using b' unsplit by (simp add: granted_buffer_def granted_table_unsplit)
  have lens: "\<forall>sg \<in> set (map run_entry pages). \<exists>ord \<in> set orders. sg_dma_len sg = order_to_size ord"
    using ords run_entry_len by auto
  have "map (\<lambda>sg. get_order (sg_dma_len sg)) (map run_entry pages) = map ion_page_order pages"
    using ords by (simp add: run_entry_len get_order_orders)
  then show ?thesis using table lens srt by (metis (lifting))
qed

theorem orders_non_increasing_witness:
  "\<exists>buffer' w'.
     ion_system_heap_allocate (new_buffer {}) 0x11000 0 0
       (boot_world [Some 4096, Some 8192] [Some 1, Some 2] []) = Inr ((0, buffer'), w') \<and>
     (\<exists>table. priv_virt buffer' = Table table \<and> length table = 2 \<and>
        sorted_wrt (\<ge>) (map (\<lambda>sg. get_order (sg_dma_len sg)) table))"
proof -
  obtain buffer' w' where ok: "ion_system_heap_allocate (new_buffer {}) 0x11000 0 0
      (boot_world [Some 4096, Some 8192] [Some 1, Some 2] []) = Inr ((0, buffer'), w')"
    and len: "\<exists>table. priv_virt buffer' = Table table \<and> length table = 2"
    by (simp add: eval_simps)
  have "\<not> ion_buffer_fault_user_mappings (new_buffer {})"
    by (simp add: ion_buffer_fault_user_mappings_def new_buffer_def)
  from orders_non_increasing [OF this ok] ok len show ?thesis by auto
qed

subsection \<open>Readiness\<close>

text \<open>
  C5. When \<open>ion_system_heap_allocate\<close> succeeds, the buffer is ready at return
  exactly if it was ready before, or \<open>SYNC_FORCE\<close> is set, or every run the packing
  loop collected carries the \<open>from_pool\<close> label. For a buffer that is not ready when
  it is handed in, readiness is latched if and only if \<open>SYNC_FORCE\<close> is set or all
  runs are labelled.
\<close>

theorem readiness_latched_iff:
  assumes ok: "ion_system_heap_allocate buffer sz align flgs w = Inr ((0, buffer'), w')"
  shows "\<exists>pages w1.
           pack_loop buffer (PAGE_ALIGN sz) (hd orders) [] 0 w
             = Inr ((True, pages, length pages), w1) \<and>
           (ready buffer' \<longleftrightarrow>
              ready buffer \<or> ion_buffer_sync_force buffer \<or> list_all ion_get_from_pool pages)"
proof -
  from allocate_cases [of buffer sz w align flgs] ok
  obtain pages w1 where
    pack: "pack_loop buffer (PAGE_ALIGN sz) (hd orders) [] 0 w
             = Inr ((True, pages, length pages), w1)"
    and b': "buffer' = granted_buffer buffer sz pages"
    by (auto simp: ENOMEM_def)
  have "ready buffer' \<longleftrightarrow>
          ready buffer \<or> ion_buffer_sync_force buffer \<or> list_all ion_get_from_pool pages"
    unfolding b' by (auto simp: granted_buffer_def ion_buffer_set_ready_def)
  then show ?thesis using pack by blast
qed

theorem readiness_latched_iff_witness:
  "\<exists>buffer' w' pages w1.
     ion_system_heap_allocate (new_buffer {}) 0x11000 0 0
       (boot_world [Some 4096, Some 8192] [Some 1, Some 2] []) = Inr ((0, buffer'), w') \<and>
     pack_loop (new_buffer {}) (PAGE_ALIGN 0x11000) (hd orders) [] 0
       (boot_world [Some 4096, Some 8192] [Some 1, Some 2] [])
       = Inr ((True, pages, length pages), w1) \<and>
     \<not> list_all ion_get_from_pool pages \<and> \<not> ready buffer'"
proof -
  obtain buffer' w' where ok: "ion_system_heap_allocate (new_buffer {}) 0x11000 0 0
      (boot_world [Some 4096, Some 8192] [Some 1, Some 2] []) = Inr ((0, buffer'), w')"
    and nr: "\<not> ready buffer'"
    by (simp add: eval_simps)
  from readiness_latched_iff [OF ok] nr ok show ?thesis by blast
qed

subsection \<open>Failure\<close>

text \<open>
  C7. \<open>ion_system_heap_allocate\<close> fails exactly when the packing loop could not
  produce a run for some remainder, when \<open>kmalloc\<close> of the table header fails, or
  when \<open>sg_alloc_table\<close> fails; otherwise it returns 0. In each of the three cases
  it returns \<open>-ENOMEM\<close> and the buffer exactly as it was handed in, and every run
  the loop had collected has gone, in order, through \<open>free_buffer_page\<close> (after
  \<open>kfree\<close> of the header when \<open>sg_alloc_table\<close> failed): for a cached buffer each
  run is released to the host and the pools are as the loop left them, for a
  non-cached buffer each run is pushed on the pool of its order, whose counters and
  pages grow by exactly these runs.
\<close>

theorem allocate_failure_unwinds:
  "\<exists>ok pages w1 x w2 ret table w3.
     pack_loop buffer (PAGE_ALIGN sz) (hd orders) [] 0 w = Inr ((ok, pages, length pages), w1) \<and>
     kmalloc w1 = (x, w2) \<and>
     sg_alloc_table (if ion_buffer_fault_user_mappings buffer
                     then unat (PAGE_ALIGN sz div PAGE_SIZE) else length pages) w2
       = ((ret, table), w3) \<and>
     (if \<not> ok then
        \<exists>w'. ion_system_heap_allocate buffer sz align flgs w = Inr ((- ENOMEM, buffer), w') \<and>
             unwound buffer pages [] w1 w'
      else if x = None then
        \<exists>w'. ion_system_heap_allocate buffer sz align flgs w = Inr ((- ENOMEM, buffer), w') \<and>
             unwound buffer pages [] w1 w'
      else if ret \<noteq> 0 then
        \<exists>w'. ion_system_heap_allocate buffer sz align flgs w = Inr ((- ENOMEM, buffer), w') \<and>
             unwound buffer pages [Kfree_table] w1 w'
      else
        \<exists>buffer' w'. ion_system_heap_allocate buffer sz align flgs w = Inr ((0, buffer'), w'))"
proof -
  let ?A = "PAGE_ALIGN sz"
  let ?split = "ion_buffer_fault_user_mappings buffer"
  obtain ok pages w1 where
    pack: "pack_loop buffer ?A (hd orders) [] 0 w = Inr ((ok, pages, length pages), w1)"
    and ords: "\<forall>pg \<in> set pages. ion_page_order pg \<in> set orders"
    and sum: "ok \<longrightarrow> run_bytes pages = (if 0 <s ?A then sint ?A else 0)"
    using pack_loop_props [of buffer ?A "hd orders" "[]" 0 w] by auto
  let ?nents = "if ?split then unat (?A div PAGE_SIZE) else length pages"
  obtain x w2 where k1: "kmalloc w1 = (x, w2)" by (cases "kmalloc w1")
  obtain ret table w3 where k2: "sg_alloc_table ?nents w2 = ((ret, table), w3)"
    by (cases "sg_alloc_table ?nents w2") auto
  note p1 = kmalloc_props [OF k1]
  note p2 = sg_alloc_table_props [OF k2]
  let ?r = "ion_system_heap_allocate buffer sz align flgs w"
  have packer: "\<exists>w'. ?r = Inr ((- ENOMEM, buffer), w') \<and> unwound buffer pages [] w1 w'"
    if "\<not> ok"
  proof -
    have "?r = alloc_err buffer pages w1"
      using pack that by (simp add: ion_system_heap_allocate_def)
    then show ?thesis using alloc_err_unwound [OF ords, of w1 w1 "[]" buffer] by simp
  qed
  have header: "\<exists>w'. ?r = Inr ((- ENOMEM, buffer), w') \<and> unwound buffer pages [] w1 w'"
    if "ok" "x = None"
  proof -
    have "?r = alloc_err buffer pages w2"
      using pack that k1 by (simp add: ion_system_heap_allocate_def)
    then show ?thesis using alloc_err_unwound [OF ords, of w2 w1 "[]" buffer] p1 by simp
  qed
  have entries: "\<exists>w'. ?r = Inr ((- ENOMEM, buffer), w') \<and>
                      unwound buffer pages [Kfree_table] w1 w'"
    if "ok" "x \<noteq> None" "ret \<noteq> 0"
  proof -
    have "?r = alloc_err buffer pages (emit Kfree_table w3)"
      using pack that k1 k2 by (auto simp: ion_system_heap_allocate_def)
    then show ?thesis
      using alloc_err_unwound [OF ords, of "emit Kfree_table w3" w1 "[Kfree_table]" buffer] p1 p2
      by simp
  qed
  have success: "\<exists>buffer' w'. ?r = Inr ((0, buffer'), w')"
    if "ok" "x \<noteq> None" "ret = 0"
  proof -
    have table: "table = replicate ?nents sg_blank" using p2 that by simp
    have fit: "length (all_entries ?split pages) \<le> ?nents"
    proof (cases ?split)
      case False
      then show ?thesis by (simp add: all_entries_unsplit)
    next
      case True
      show ?thesis using entries_fit [OF ords, of ?A] sum that True by simp
    qed
    have fill: "fill_table ?split pages table 0 True
                  = Some (filled_table buffer sz pages, list_all ion_get_from_pool pages)"
      using fit by (simp add: fill_table_eq table filled_table_def)
    show ?thesis
      using pack that k1 k2 fill by (auto simp: ion_system_heap_allocate_def Let_def)
  qed
  show ?thesis
    using pack k1 k2 packer header entries success
    by (intro exI [of _ ok] exI [of _ pages] exI [of _ w1] exI [of _ x] exI [of _ w2]
              exI [of _ ret] exI [of _ table] exI [of _ w3]) simp
qed

theorem allocate_failure_unwinds_witness:
  "(\<exists>w'. ion_system_heap_allocate (new_buffer {}) 0x2000 0 0 (boot_world [Some 4096] [] [])
            = Inr ((- ENOMEM, new_buffer {}), w') \<and>
          trace w' = [Alloc_pages low_order_gfp_flags 0 (Some 4096),
                      Alloc_pages low_order_gfp_flags 0 None, Pool_free 2 4096] \<and>
          pooled w' 2 = 1 \<and> pool_pages w' 2 = {4096}) \<and>
   (\<exists>w'. ion_system_heap_allocate (new_buffer {}) 0x11000 0 0
            (boot_world [Some 4096, Some 8192] [None] [])
            = Inr ((- ENOMEM, new_buffer {}), w') \<and>
          trace w' = [Alloc_pages high_order_gfp_flags 4 (Some 4096),
                      Alloc_pages low_order_gfp_flags 0 (Some 8192),
                      Pool_free 1 4096, Pool_free 2 8192] \<and>
          pooled w' 1 = 1 \<and> pool_pages w' 1 = {4096} \<and>
          pooled w' 2 = 1 \<and> pool_pages w' 2 = {8192}) \<and>
   (\<exists>w'. ion_system_heap_allocate (new_buffer {CACHED}) 0x11000 0 0
            (boot_world [Some 4096, Some 8192] [Some 16, None] [])
            = Inr ((- ENOMEM, new_buffer {CACHED}), w') \<and>
          trace w' = [Alloc_pages high_order_gfp_flags 4 (Some 4096),
                      Alloc_pages low_order_gfp_flags 0 (Some 8192),
                      Kfree_table, Free_pages 4096 4, Free_pages 8192 0] \<and>
          pools w' 1 = ion_system_heap_create 1 \<and> pools w' 2 = ion_system_heap_create 2)"
proof (intro conjI)
  let ?b = "new_buffer {}"
  let ?w = "boot_world [Some 4096] [] []"
  have pack: "pack_loop ?b (PAGE_ALIGN 0x2000) (hd orders) [] 0 ?w
      = Inr ((False, [\<lparr>pfn = 4096, page_private = 0, frompool = False\<rparr>], 1),
             ?w\<lparr>buddy := [], trace := [Alloc_pages low_order_gfp_flags 0 (Some 4096),
                                         Alloc_pages low_order_gfp_flags 0 None]\<rparr>)"
    by (simp add: eval_simps)
  obtain ok pages w1 x w2 ret table w3 where
    p: "pack_loop ?b (PAGE_ALIGN 0x2000) (hd orders) [] 0 ?w = Inr ((ok, pages, length pages), w1)"
    and k1: "kmalloc w1 = (x, w2)"
    and k2: "sg_alloc_table (if ion_buffer_fault_user_mappings ?b
                            then unat (PAGE_ALIGN 0x2000 div PAGE_SIZE) else length pages) w2
               = ((ret, table), w3)"
    and br: "if \<not> ok then
               \<exists>w'. ion_system_heap_allocate ?b 0x2000 0 0 ?w = Inr ((- ENOMEM, ?b), w') \<and>
                    unwound ?b pages [] w1 w'
             else if x = None then
               \<exists>w'. ion_system_heap_allocate ?b 0x2000 0 0 ?w = Inr ((- ENOMEM, ?b), w') \<and>
                    unwound ?b pages [] w1 w'
             else if ret \<noteq> 0 then
               \<exists>w'. ion_system_heap_allocate ?b 0x2000 0 0 ?w = Inr ((- ENOMEM, ?b), w') \<and>
                    unwound ?b pages [Kfree_table] w1 w'
             else
               \<exists>buffer' w'. ion_system_heap_allocate ?b 0x2000 0 0 ?w = Inr ((0, buffer'), w')"
    using allocate_failure_unwinds [of ?b "0x2000" ?w 0 0] by blast
  from p pack have vals: "\<not> ok" "pages = [\<lparr>pfn = 4096, page_private = 0, frompool = False\<rparr>]"
    "w1 = ?w\<lparr>buddy := [], trace := [Alloc_pages low_order_gfp_flags 0 (Some 4096),
                                         Alloc_pages low_order_gfp_flags 0 None]\<rparr>"
    by simp_all
  from br vals obtain w' where res:
    "ion_system_heap_allocate ?b 0x2000 0 0 ?w = Inr ((- ENOMEM, ?b), w')"
    "unwound ?b [\<lparr>pfn = 4096, page_private = 0, frompool = False\<rparr>] [] (?w\<lparr>buddy := [], trace := [Alloc_pages low_order_gfp_flags 0 (Some 4096),
                                         Alloc_pages low_order_gfp_flags 0 None]\<rparr>) w'"
    by auto
  show "\<exists>w'. ion_system_heap_allocate ?b 0x2000 0 0 ?w = Inr ((- ENOMEM, ?b), w') \<and>
          trace w' = [Alloc_pages low_order_gfp_flags 0 (Some 4096),
                      Alloc_pages low_order_gfp_flags 0 None, Pool_free 2 4096] \<and>
          pooled w' 2 = 1 \<and> pool_pages w' 2 = {4096}"
    using res by (simp add: unwound_simps numeral_2_eq_2)
next
  let ?b = "new_buffer {}"
  let ?w = "boot_world [Some 4096, Some 8192] [None] []"
  have pack: "pack_loop ?b (PAGE_ALIGN 0x11000) (hd orders) [] 0 ?w
      = Inr ((True, [\<lparr>pfn = 4096, page_private = 4, frompool = False\<rparr>,
                     \<lparr>pfn = 8192, page_private = 0, frompool = False\<rparr>], 2),
             ?w\<lparr>buddy := [], trace := [Alloc_pages high_order_gfp_flags 4 (Some 4096),
                                         Alloc_pages low_order_gfp_flags 0 (Some 8192)]\<rparr>)"
    by (simp add: eval_simps)
  obtain ok pages w1 x w2 ret table w3 where
    p: "pack_loop ?b (PAGE_ALIGN 0x11000) (hd orders) [] 0 ?w = Inr ((ok, pages, length pages), w1)"
    and k1: "kmalloc w1 = (x, w2)"
    and k2: "sg_alloc_table (if ion_buffer_fault_user_mappings ?b
                            then unat (PAGE_ALIGN 0x11000 div PAGE_SIZE) else length pages) w2
               = ((ret, table), w3)"
    and br: "if \<not> ok then
               \<exists>w'. ion_system_heap_allocate ?b 0x11000 0 0 ?w = Inr ((- ENOMEM, ?b), w') \<and>
                    unwound ?b pages [] w1 w'
             else if x = None then
               \<exists>w'. ion_system_heap_allocate ?b 0x11000 0 0 ?w = Inr ((- ENOMEM, ?b), w') \<and>
                    unwound ?b pages [] w1 w'
             else if ret \<noteq> 0 then
               \<exists>w'. ion_system_heap_allocate ?b 0x11000 0 0 ?w = Inr ((- ENOMEM, ?b), w') \<and>
                    unwound ?b pages [Kfree_table] w1 w'
             else
               \<exists>buffer' w'. ion_system_heap_allocate ?b 0x11000 0 0 ?w = Inr ((0, buffer'), w')"
    using allocate_failure_unwinds [of ?b "0x11000" ?w 0 0] by blast
  from p pack have vals: "ok" "pages = [\<lparr>pfn = 4096, page_private = 4, frompool = False\<rparr>,
                     \<lparr>pfn = 8192, page_private = 0, frompool = False\<rparr>]"
    "w1 = ?w\<lparr>buddy := [], trace := [Alloc_pages high_order_gfp_flags 4 (Some 4096),
                                         Alloc_pages low_order_gfp_flags 0 (Some 8192)]\<rparr>"
    by simp_all
  from k1 vals have "x = None" by (simp add: kmalloc_def boot_world_def)
  with br vals obtain w' where res:
    "ion_system_heap_allocate ?b 0x11000 0 0 ?w = Inr ((- ENOMEM, ?b), w')"
    "unwound ?b [\<lparr>pfn = 4096, page_private = 4, frompool = False\<rparr>,
                     \<lparr>pfn = 8192, page_private = 0, frompool = False\<rparr>] [] (?w\<lparr>buddy := [], trace := [Alloc_pages high_order_gfp_flags 4 (Some 4096),
                                         Alloc_pages low_order_gfp_flags 0 (Some 8192)]\<rparr>) w'"
    by auto
  show "\<exists>w'. ion_system_heap_allocate ?b 0x11000 0 0 ?w = Inr ((- ENOMEM, ?b), w') \<and>
          trace w' = [Alloc_pages high_order_gfp_flags 4 (Some 4096),
                      Alloc_pages low_order_gfp_flags 0 (Some 8192),
                      Pool_free 1 4096, Pool_free 2 8192] \<and>
          pooled w' 1 = 1 \<and> pool_pages w' 1 = {4096} \<and>
          pooled w' 2 = 1 \<and> pool_pages w' 2 = {8192}"
    using res by (simp add: unwound_simps numeral_2_eq_2)
next
  let ?b = "new_buffer {CACHED}"
  let ?w = "boot_world [Some 4096, Some 8192] [Some 16, None] []"
  have pack: "pack_loop ?b (PAGE_ALIGN 0x11000) (hd orders) [] 0 ?w
      = Inr ((True, [\<lparr>pfn = 4096, page_private = 4, frompool = False\<rparr>,
                     \<lparr>pfn = 8192, page_private = 0, frompool = False\<rparr>], 2),
             ?w\<lparr>buddy := [], trace := [Alloc_pages high_order_gfp_flags 4 (Some 4096),
                                         Alloc_pages low_order_gfp_flags 0 (Some 8192)]\<rparr>)"
    by (simp add: eval_simps)
  obtain ok pages w1 x w2 ret table w3 where
    p: "pack_loop ?b (PAGE_ALIGN 0x11000) (hd orders) [] 0 ?w = Inr ((ok, pages, length pages), w1)"
    and k1: "kmalloc w1 = (x, w2)"
    and k2: "sg_alloc_table (if ion_buffer_fault_user_mappings ?b
                            then unat (PAGE_ALIGN 0x11000 div PAGE_SIZE) else length pages) w2
               = ((ret, table), w3)"
    and br: "if \<not> ok then
               \<exists>w'. ion_system_heap_allocate ?b 0x11000 0 0 ?w = Inr ((- ENOMEM, ?b), w') \<and>
                    unwound ?b pages [] w1 w'
             else if x = None then
               \<exists>w'. ion_system_heap_allocate ?b 0x11000 0 0 ?w = Inr ((- ENOMEM, ?b), w') \<and>
                    unwound ?b pages [] w1 w'
             else if ret \<noteq> 0 then
               \<exists>w'. ion_system_heap_allocate ?b 0x11000 0 0 ?w = Inr ((- ENOMEM, ?b), w') \<and>
                    unwound ?b pages [Kfree_table] w1 w'
             else
               \<exists>buffer' w'. ion_system_heap_allocate ?b 0x11000 0 0 ?w = Inr ((0, buffer'), w')"
    using allocate_failure_unwinds [of ?b "0x11000" ?w 0 0] by blast
  from p pack have vals: "ok" "pages = [\<lparr>pfn = 4096, page_private = 4, frompool = False\<rparr>,
                     \<lparr>pfn = 8192, page_private = 0, frompool = False\<rparr>]"
    "w1 = ?w\<lparr>buddy := [], trace := [Alloc_pages high_order_gfp_flags 4 (Some 4096),
                                         Alloc_pages low_order_gfp_flags 0 (Some 8192)]\<rparr>"
    by simp_all
  from k1 vals have x: "x = Some 16" "w2 = w1\<lparr>slab := [None]\<rparr>"
    by (auto simp: kmalloc_def boot_world_def)
  from k2 x vals have "ret \<noteq> 0"
    by (auto simp: sg_alloc_table_def kmalloc_def boot_world_def ENOMEM_def)
  with br vals x obtain w' where res:
    "ion_system_heap_allocate ?b 0x11000 0 0 ?w = Inr ((- ENOMEM, ?b), w')"
    "unwound ?b [\<lparr>pfn = 4096, page_private = 4, frompool = False\<rparr>,
                     \<lparr>pfn = 8192, page_private = 0, frompool = False\<rparr>] [Kfree_table] (?w\<lparr>buddy := [], trace := [Alloc_pages high_order_gfp_flags 4 (Some 4096),
                                         Alloc_pages low_order_gfp_flags 0 (Some 8192)]\<rparr>) w'"
    by auto
  show "\<exists>w'. ion_system_heap_allocate ?b 0x11000 0 0 ?w = Inr ((- ENOMEM, ?b), w') \<and>
          trace w' = [Alloc_pages high_order_gfp_flags 4 (Some 4096),
                      Alloc_pages low_order_gfp_flags 0 (Some 8192),
                      Kfree_table, Free_pages 4096 4, Free_pages 8192 0] \<and>
          pools w' 1 = ion_system_heap_create 1 \<and> pools w' 2 = ion_system_heap_create 2"
    using res by (simp add: unwound_simps numeral_2_eq_2)
qed

subsection \<open>Zeroing on the free path\<close>

text \<open>
  C6. What \<open>ion_system_heap_free\<close> does to a buffer with a table starts, when the
  buffer is non-cached and does not set \<open>NOZEROED\<close>, with the zeroing of every entry
  of the table, in table order, and nothing that follows is a zeroing: every return
  of a run to a pool comes after all of it. When the buffer is cached or sets
  \<open>NOZEROED\<close>, the call zeroes nothing. This holds also for a call that ends in
  \<open>BUG()\<close>.
\<close>

theorem free_zeroes_first:
  assumes table: "sg_table buffer = Table table"
  shows "\<exists>evs. trace (world_of (ion_system_heap_free buffer w))
                 = trace w
                   @ (if \<not> ion_buffer_cached buffer \<and> NOZEROED \<notin> flags buffer
                      then zeroing_of table else [])
                   @ evs \<and>
               list_all (\<lambda>e. \<not> is_zeroing e) evs"
proof -
  define w1 where "w1 = (if \<not> ion_buffer_cached buffer \<and> NOZEROED \<notin> flags buffer
                         then ion_heap_buffer_zero buffer w else w)"
  have t1: "trace w1 = trace w @ (if \<not> ion_buffer_cached buffer \<and> NOZEROED \<notin> flags buffer
                                  then zeroing_of table else [])"
    using ion_heap_buffer_zero_props [OF table, of w] by (simp add: w1_def)
  obtain evs where evs: "trace (world_of (free_sg_pages buffer table w1)) = trace w1 @ evs"
    "list_all (\<lambda>e. \<not> is_zeroing e) evs"
    using free_sg_pages_any by blast
  have "\<exists>evs'. trace (world_of (ion_system_heap_free buffer w)) = trace w1 @ evs' \<and>
              list_all (\<lambda>e. \<not> is_zeroing e) evs'"
  proof (cases "free_sg_pages buffer table w1")
    case (Inl e)
    then show ?thesis using evs table
      by (cases e) (auto simp: ion_system_heap_free_def w1_def Let_def)
  next
    case (Inr r)
    then show ?thesis using evs table
      by (cases r) (auto simp: ion_system_heap_free_def w1_def Let_def)
  qed
  then show ?thesis using t1 by auto
qed

theorem free_zeroes_first_witness:
  "trace (world_of (ion_system_heap_free
       (filled_buffer {} [\<lparr>sg_page = 4096, sg_dma_len = 0x10000, sg_offset = 0\<rparr>,
                          \<lparr>sg_page = 8192, sg_dma_len = 0x1000, sg_offset = 0\<rparr>])
       (boot_world [] [] [])))
     = [Zero_pages 4096 0x10000, Zero_pages 8192 0x1000,
        Pool_free 1 4096, Pool_free 2 8192, Kfree_table] \<and>
   (\<exists>evs. trace (world_of (ion_system_heap_free
       (filled_buffer {} [\<lparr>sg_page = 4096, sg_dma_len = 0x10000, sg_offset = 0\<rparr>,
                          \<lparr>sg_page = 8192, sg_dma_len = 0x1000, sg_offset = 0\<rparr>])
       (boot_world [] [] [])))
     = [Zero_pages 4096 0x10000, Zero_pages 8192 0x1000] @ evs \<and>
     list_all (\<lambda>e. \<not> is_zeroing e) evs)"
proof -
  let ?T = "[\<lparr>sg_page = 4096, sg_dma_len = 0x10000, sg_offset = 0\<rparr>,
             \<lparr>sg_page = 8192, sg_dma_len = 0x1000 :: ulong, sg_offset = 0 :: ulong\<rparr>]"
  have t: "sg_table (filled_buffer {} ?T) = Table ?T" by (simp add: filled_buffer_eq)
  have run: "trace (world_of (ion_system_heap_free (filled_buffer {} ?T) (boot_world [] [] [])))
     = [Zero_pages 4096 0x10000, Zero_pages 8192 0x1000,
        Pool_free 1 4096, Pool_free 2 8192, Kfree_table]"
    by (simp add: free_eval_simps)
  from free_zeroes_first [OF t, of "boot_world [] [] []"] run show ?thesis
    by (simp add: free_eval_simps)
qed

subsection \<open>Freeing a non-cached buffer of split pages\<close>

text \<open>
  C3, as the code has it: when a non-cached buffer with \<open>FAULT_USER_MAPPINGS\<close>, whose
  table holds one-page entries, is freed, every page of the table is returned to the
  order-0 pool (the pool at index 2), one \<open>ion_page_pool_free\<close> per entry after the
  zeroing, and none is released to the host: the counters of the order-0 pool grow by
  the number of entries in total and the other pools are unchanged.
\<close>

theorem split_noncached_free_pools_pages:
  assumes noncached: "\<not> ion_buffer_cached buffer"
    and split: "ion_buffer_fault_user_mappings buffer"
    and table: "sg_table buffer = Table table"
    and single: "\<forall>sg \<in> set table. sg_dma_len sg = PAGE_SIZE"
  shows "\<exists>w'. ion_system_heap_free buffer w = Inr ((), w') \<and>
           pooled w' 2 = pooled w 2 + int (length table) \<and>
           (\<forall>idx. idx \<noteq> 2 \<longrightarrow> pools w' idx = pools w idx) \<and>
           trace w' = trace w
             @ (if NOZEROED \<notin> flags buffer then zeroing_of table else [])
             @ map (\<lambda>sg. Pool_free 2 (sg_page sg)) table @ [Kfree_table]"
proof -
  define w1 where "w1 = (if NOZEROED \<notin> flags buffer then ion_heap_buffer_zero buffer w else w)"
  have w1: "trace w1 = trace w @ (if NOZEROED \<notin> flags buffer then zeroing_of table else [])"
    "pools w1 = pools w"
    using ion_heap_buffer_zero_props [OF table, of w] by (simp_all add: w1_def)
  from free_single_pages [OF noncached single, of w1]
  obtain w2 where w2: "free_sg_pages buffer table w1 = Inr ((), w2)"
    "pooled w2 2 = pooled w1 2 + int (length table)"
    "\<forall>idx. idx \<noteq> 2 \<longrightarrow> pools w2 idx = pools w1 idx"
    "trace w2 = trace w1 @ map (\<lambda>sg. Pool_free 2 (sg_page sg)) table"
    by blast
  have "ion_system_heap_free buffer w = Inr ((), emit Kfree_table w2)"
    using table noncached w2(1) by (simp add: ion_system_heap_free_def w1_def)
  then show ?thesis using w1 w2 by (simp add: pooled_def)
qed

theorem split_noncached_free_pools_pages_witness:
  "\<exists>w'. ion_system_heap_free
           (filled_buffer {FAULT_USER_MAPPINGS} (map (page_entry (new_page 4096)) [0..<2]))
           (boot_world [] [] []) = Inr ((), w') \<and>
         pooled w' 2 = 2 \<and>
         trace w' = [Zero_pages 4096 PAGE_SIZE, Zero_pages 4097 PAGE_SIZE,
                     Pool_free 2 4096, Pool_free 2 4097, Kfree_table]"
proof -
  let ?b = "filled_buffer {FAULT_USER_MAPPINGS} (map (page_entry (new_page 4096)) [0..<2])"
  have 1: "\<not> ion_buffer_cached ?b"
    and 2: "ion_buffer_fault_user_mappings ?b"
    and 3: "sg_table ?b = Table (map (page_entry (new_page 4096)) [0..<2])"
    and 4: "\<forall>sg \<in> set (map (page_entry (new_page 4096)) [0..<2]). sg_dma_len sg = PAGE_SIZE"
    by (simp_all add: filled_buffer_eq new_buffer_def ion_buffer_cached_def
          ion_buffer_fault_user_mappings_def page_entry_def)
  have 5: "[0..<2] = [0, Suc 0]" by (simp add: upt_rec)
  from split_noncached_free_pools_pages [OF 1 2 3 4, of "boot_world [] [] []"]
  obtain w' where "ion_system_heap_free ?b (boot_world [] [] []) = Inr ((), w')"
    "pooled w' 2 = pooled (boot_world [] [] []) 2 + int (length (map (page_entry (new_page 4096)) [0..<2]))"
    "trace w' = trace (boot_world [] [] [])
             @ (if NOZEROED \<notin> flags ?b then zeroing_of (map (page_entry (new_page 4096)) [0..<2]) else [])
             @ map (\<lambda>sg. Pool_free 2 (sg_page sg)) (map (page_entry (new_page 4096)) [0..<2]) @ [Kfree_table]"
    by blast
  then show ?thesis
    by (intro exI [of _ w'])
       (simp add: 5 pooled_def boot_world_def ion_system_heap_create_def ion_page_pool_create_def
          filled_buffer_eq new_buffer_def zeroing_of_def page_entry_def new_page_def
          num_orders_def orders_def)
qed

text \<open>
  C3 as the spec words it (the pages go to the host, no pool counter changes) fails
  on the spec's own sixth scenario: 64 KiB allocated with \<open>FAULT_USER_MAPPINGS\<close> alone
  give a table of the 16 pages of one split order-4 run; freeing that buffer leaves
  16 pages in the order-0 pool, which held none, and releases no page to the host.
\<close>

theorem split_noncached_free_counterexample:
  "ion_system_heap_allocate (new_buffer {FAULT_USER_MAPPINGS}) 0x10000 0 0
       (boot_world [Some 4096] [Some 1, Some 2] [])
     = Inr ((0, (new_buffer {FAULT_USER_MAPPINGS})
                  \<lparr>priv_virt := Table (map (page_entry (new_page 4096)) [0..<16])\<rparr>),
            (boot_world [] [] [])
              \<lparr>trace := [Alloc_pages high_order_gfp_flags 4 (Some 4096), Split_page 4096 4]\<rparr>) \<and>
   pooled ((boot_world [] [] [])
              \<lparr>trace := [Alloc_pages high_order_gfp_flags 4 (Some 4096), Split_page 4096 4]\<rparr>) 2
     = 0 \<and>
   pooled (world_of (ion_system_heap_free
       (filled_buffer {FAULT_USER_MAPPINGS} (map (page_entry (new_page 4096)) [0..<16]))
       ((boot_world [] [] [])
          \<lparr>trace := [Alloc_pages high_order_gfp_flags 4 (Some 4096), Split_page 4096 4]\<rparr>))) 2
     = 16 \<and>
   filter is_host_free
     (trace (world_of (ion_system_heap_free
       (filled_buffer {FAULT_USER_MAPPINGS} (map (page_entry (new_page 4096)) [0..<16]))
       ((boot_world [] [] [])
          \<lparr>trace := [Alloc_pages high_order_gfp_flags 4 (Some 4096), Split_page 4096 4]\<rparr>))))
     = []"
proof -
  let ?T = "map (page_entry (new_page 4096)) [0..<16]"
  let ?b = "filled_buffer {FAULT_USER_MAPPINGS} ?T"
  let ?w = "(boot_world [] [] [])
              \<lparr>trace := [Alloc_pages high_order_gfp_flags 4 (Some 4096), Split_page 4096 4]\<rparr>"
  have alloc: "ion_system_heap_allocate (new_buffer {FAULT_USER_MAPPINGS}) 0x10000 0 0
       (boot_world [Some 4096] [Some 1, Some 2] [])
     = Inr ((0, (new_buffer {FAULT_USER_MAPPINGS})\<lparr>priv_virt := Table ?T\<rparr>), ?w)"
    by (simp add: eval_simps fill_table_eq all_entries_def entries_of_def page_entry_def
             del: fill_table.simps)
  have before: "pooled ?w 2 = 0"
    by (simp add: pooled_def boot_world_def ion_system_heap_create_def ion_page_pool_create_def
          num_orders_def orders_def)
  have nc: "\<not> ion_buffer_cached ?b"
    and single: "\<forall>sg \<in> set ?T. sg_dma_len sg = PAGE_SIZE"
    and tbl: "sg_table ?b = Table ?T"
    and nz: "NOZEROED \<notin> flags ?b"
    by (simp_all add: filled_buffer_eq new_buffer_def ion_buffer_cached_def page_entry_def)
  define w1 where "w1 = ion_heap_buffer_zero ?b ?w"
  have w1: "trace w1 = trace ?w @ zeroing_of ?T" "pools w1 = pools ?w"
    using ion_heap_buffer_zero_props [OF tbl, of ?w] by (simp_all add: w1_def)
  from free_single_pages [OF nc single, of w1]
  obtain w2 where w2: "free_sg_pages ?b ?T w1 = Inr ((), w2)"
    "pooled w2 2 = pooled w1 2 + int (length ?T)"
    "trace w2 = trace w1 @ map (\<lambda>sg. Pool_free 2 (sg_page sg)) ?T"
    by blast
  have free: "ion_system_heap_free ?b ?w = Inr ((), emit Kfree_table w2)"
    using tbl nc nz w2(1) by (simp add: ion_system_heap_free_def w1_def)
  have after: "pooled (world_of (ion_system_heap_free ?b ?w)) 2 = 16"
    using w2(2) w1(2) before by (simp add: free pooled_def)
  have "filter is_host_free (trace (emit Kfree_table w2)) = []"
    using w2(3) w1(1)
    by (simp add: zeroing_of_def is_host_free_def boot_world_def filter_map comp_def)
  then have nofree: "filter is_host_free (trace (world_of (ion_system_heap_free ?b ?w))) = []"
    by (simp add: free)
  show ?thesis using alloc before after nofree by simp
qed

subsection \<open>The abort of order_to_index\<close>

text \<open>
  C9. \<open>order_to_index\<close> reaches \<open>BUG()\<close> exactly for an argument outside
  \<open>{8, 4, 0}\<close>, and maps each order of the array to its position.
  \<open>ion_system_heap_allocate\<close> never ends in \<open>BUG()\<close>, whatever it is given. Freeing a
  buffer whose entries all have a length \<open>PAGE_SIZE << o\<close> with \<open>o\<close> in the set calls
  \<open>order_to_index\<close> only on orders of the set, and does not end in \<open>BUG()\<close> either.
\<close>

theorem order_to_index_bug_unreachable:
  "(order_to_index ord = Inl BUG \<longleftrightarrow> ord \<notin> {8, 4, 0}) \<and>
   (\<forall>i < num_orders. order_to_index (orders ! i) = Inr i) \<and>
   (\<forall>w'. ion_system_heap_allocate buffer sz align flgs w \<noteq> Inl (BUG, w')) \<and>
   (sg_table buffer = Table table \<and>
    (\<forall>sg \<in> set table. \<exists>ord \<in> {8, 4, 0}. sg_dma_len sg = order_to_size ord)
      \<longrightarrow> (\<forall>sg \<in> set table. order_to_index (get_order (sg_dma_len sg)) \<noteq> Inl BUG) \<and>
          (\<forall>w'. ion_system_heap_free buffer w \<noteq> Inl (BUG, w')))"
proof (intro conjI impI)
  show "order_to_index ord = Inl BUG \<longleftrightarrow> ord \<notin> {8, 4, 0}"
    by (simp add: order_to_index_eq)
  show "\<forall>i < num_orders. order_to_index (orders ! i) = Inr i"
    by (auto simp: num_orders_def orders_def order_to_index_eq less_Suc_eq)
  show "\<forall>w'. ion_system_heap_allocate buffer sz align flgs w \<noteq> Inl (BUG, w')"
    using allocate_returns [of buffer sz align flgs w] by auto
next
  assume a: "sg_table buffer = Table table \<and>
    (\<forall>sg \<in> set table. \<exists>ord \<in> {8, 4, 0}. sg_dma_len sg = order_to_size ord)"
  then have ords: "\<forall>sg \<in> set table. get_order (sg_dma_len sg) \<in> set orders"
    using get_order_orders by (fastforce simp: orders_def)
  then show "\<forall>sg \<in> set table. order_to_index (get_order (sg_dma_len sg)) \<noteq> Inl BUG"
    by (auto simp: order_to_index_eq orders_def)
  show "\<forall>w'. ion_system_heap_free buffer w \<noteq> Inl (BUG, w')"
    using free_returns [of buffer table w] a ords by auto
qed

theorem order_to_index_bug_unreachable_witness:
  "order_to_index 3 = Inl BUG \<and> order_to_index 4 = Inr 1 \<and>
   ion_system_heap_allocate (new_buffer {}) 0x11000 0 0
       (boot_world [Some 4096, Some 8192] [Some 1, Some 2] [])
     \<noteq> Inl (BUG, boot_world [] [] []) \<and>
   ion_system_heap_free
       (filled_buffer {} [\<lparr>sg_page = 4096, sg_dma_len = order_to_size 4, sg_offset = 0\<rparr>,
                          \<lparr>sg_page = 8192, sg_dma_len = order_to_size 0, sg_offset = 0\<rparr>])
       (boot_world [] [] [])
     \<noteq> Inl (BUG, boot_world [] [] [])"
proof -
  let ?T = "[\<lparr>sg_page = 4096, sg_dma_len = order_to_size 4, sg_offset = 0\<rparr>,
             \<lparr>sg_page = 8192, sg_dma_len = order_to_size 0, sg_offset = 0 :: ulong\<rparr>]"
  have h: "sg_table (filled_buffer {} ?T) = Table ?T \<and>
    (\<forall>sg \<in> set ?T. \<exists>ord \<in> {8, 4, 0}. sg_dma_len sg = order_to_size ord)"
    by (simp add: filled_buffer_eq)
  have 3: "(3 :: nat) \<notin> {8, 4, 0}" by simp
  have a: "ion_system_heap_allocate (new_buffer {}) 0x11000 0 0
       (boot_world [Some 4096, Some 8192] [Some 1, Some 2] [])
     \<noteq> Inl (BUG, boot_world [] [] [])"
    using order_to_index_bug_unreachable [where buffer = "new_buffer {}" and sz = "0x11000"
        and w = "boot_world [Some 4096, Some 8192] [Some 1, Some 2] []"]
    by blast
  have f: "ion_system_heap_free (filled_buffer {} ?T) (boot_world [] [] [])
     \<noteq> Inl (BUG, boot_world [] [] [])"
    using order_to_index_bug_unreachable [where buffer = "filled_buffer {} ?T" and table = ?T
        and w = "boot_world [] [] []"] h
    by blast
  have o: "order_to_index 3 = Inl BUG"
    using order_to_index_bug_unreachable [where ord = 3] 3 by blast
  show ?thesis using a f o by (simp add: order_to_index_eq)
qed

subsection \<open>Cached buffers bypass the pools\<close>

text \<open>
  C8. For a buffer with \<open>CACHED\<close>: \<open>ion_system_heap_allocate\<close> leaves every pool as
  it was, whether it succeeds or fails; none of its events is a return to a pool or
  a zeroing, every call of \<open>alloc_pages\<close> it makes uses the high-order flags for an
  order above 0 and the low-order flags for order 0, and the runs the packing loop
  collects are exactly the runs those calls returned, in order. \<open>ion_system_heap_free\<close>
  leaves every pool as it was and releases every entry of the table to the host
  (page by page when the buffer has \<open>FAULT_USER_MAPPINGS\<close>, as a run otherwise) before
  it frees the table.
\<close>

theorem cached_bypasses_pools:
  assumes cached: "ion_buffer_cached buffer"
  shows "(\<exists>ok pages w1 evs.
            pack_loop buffer (PAGE_ALIGN sz) (hd orders) [] 0 w
              = Inr ((ok, pages, length pages), w1) \<and>
            pools (world_of (ion_system_heap_allocate buffer sz align flgs w)) = pools w \<and>
            trace (world_of (ion_system_heap_allocate buffer sz align flgs w)) = trace w @ evs \<and>
            list_all cached_event evs \<and>
            host_runs evs = map (\<lambda>pg. (pfn pg, ion_page_order pg)) pages) \<and>
         (sg_table buffer = Table table \<longrightarrow>
            (\<exists>w'. ion_system_heap_free buffer w = Inr ((), w') \<and> pools w' = pools w \<and>
                  trace w' = trace w @ host_released buffer table @ [Kfree_table]))"
proof (intro conjI impI)
  let ?r = "ion_system_heap_allocate buffer sz align flgs w"
  from allocate_cases [of buffer sz w align flgs]
  obtain ok pages w1 where
    pack: "pack_loop buffer (PAGE_ALIGN sz) (hd orders) [] 0 w = Inr ((ok, pages, length pages), w1)"
    and exits: "(\<exists>w' kf. ?r = Inr ((- ENOMEM, buffer), w') \<and>
               (kf = [] \<or> kf = [Kfree_table]) \<and>
               trace w' = trace w1 @ kf @ released_runs buffer pages \<and>
               (ion_buffer_cached buffer \<longrightarrow> pools w' = pools w1))
      \<or> (ok \<and> (\<exists>w'. ?r = Inr ((0, granted_buffer buffer sz pages), w') \<and>
                       trace w' = trace w1 @ (if ion_buffer_sync_force buffer
                                              then [Device_sync (filled_table buffer sz pages)]
                                              else []) \<and>
                       pools w' = pools w1))"
    by blast
  from cached_pack_loop [OF cached, of "PAGE_ALIGN sz" "hd orders" "[]" 0 w] pack
  obtain evs1 where p1: "pools w1 = pools w" "trace w1 = trace w @ evs1"
    "list_all cached_event evs1" "host_runs evs1 = map (\<lambda>pg. (pfn pg, ion_page_order pg)) pages"
    by auto
  from exits obtain evs2 where p2: "pools (world_of ?r) = pools w1"
    "trace (world_of ?r) = trace w1 @ evs2" "list_all cached_event evs2" "host_runs evs2 = []"
  proof
    assume "\<exists>w' kf. ?r = Inr ((- ENOMEM, buffer), w') \<and>
               (kf = [] \<or> kf = [Kfree_table]) \<and>
               trace w' = trace w1 @ kf @ released_runs buffer pages \<and>
               (ion_buffer_cached buffer \<longrightarrow> pools w' = pools w1)"
    then obtain w' kf where f: "?r = Inr ((- ENOMEM, buffer), w')" "kf = [] \<or> kf = [Kfree_table]"
      "trace w' = trace w1 @ kf @ released_runs buffer pages" "pools w' = pools w1"
      using cached by blast
    have "list_all cached_event (kf @ released_runs buffer pages)"
      "host_runs (kf @ released_runs buffer pages) = []"
      using f(2) released_runs_cached [OF cached, of pages] by (auto simp: host_runs_append)
    then show ?thesis using f that [of "kf @ released_runs buffer pages"] by simp
  next
    assume "ok \<and> (\<exists>w'. ?r = Inr ((0, granted_buffer buffer sz pages), w') \<and>
                       trace w' = trace w1 @ (if ion_buffer_sync_force buffer
                                              then [Device_sync (filled_table buffer sz pages)]
                                              else []) \<and>
                       pools w' = pools w1)"
    then obtain w' where s: "?r = Inr ((0, granted_buffer buffer sz pages), w')"
      "trace w' = trace w1 @ (if ion_buffer_sync_force buffer
                              then [Device_sync (filled_table buffer sz pages)] else [])"
      "pools w' = pools w1"
      by blast
    show ?thesis
      using s that [of "if ion_buffer_sync_force buffer
                        then [Device_sync (filled_table buffer sz pages)] else []"]
      by simp
  qed
  have "trace (world_of ?r) = trace w @ (evs1 @ evs2)" using p1 p2 by simp
  moreover have "list_all cached_event (evs1 @ evs2)" using p1 p2 by simp
  moreover have "host_runs (evs1 @ evs2) = map (\<lambda>pg. (pfn pg, ion_page_order pg)) pages"
    using p1 p2 by (simp add: host_runs_append)
  moreover have "pools (world_of ?r) = pools w" using p1 p2 by simp
  ultimately show "\<exists>ok pages w1 evs.
            pack_loop buffer (PAGE_ALIGN sz) (hd orders) [] 0 w
              = Inr ((ok, pages, length pages), w1) \<and>
            pools (world_of ?r) = pools w \<and>
            trace (world_of ?r) = trace w @ evs \<and>
            list_all cached_event evs \<and>
            host_runs evs = map (\<lambda>pg. (pfn pg, ion_page_order pg)) pages"
    using pack by blast
next
  assume table: "sg_table buffer = Table table"
  from free_sg_pages_props [of buffer table w] cached
  obtain w2 where w2: "free_sg_pages buffer table w = Inr ((), w2)"
    "trace w2 = trace w @ released_entries buffer table" "pools w2 = pools w"
    by blast
  have "ion_system_heap_free buffer w = Inr ((), emit Kfree_table w2)"
    using table cached w2(1) by (simp add: ion_system_heap_free_def)
  then show "\<exists>w'. ion_system_heap_free buffer w = Inr ((), w') \<and> pools w' = pools w \<and>
                  trace w' = trace w @ host_released buffer table @ [Kfree_table]"
    using w2 released_entries_cached [OF cached] by simp
qed

theorem cached_bypasses_pools_witness:
  "trace (world_of (ion_system_heap_allocate (new_buffer {CACHED}) 0x11000 0 0
             (boot_world [Some 4096, Some 8192] [Some 1, Some 2] [])))
     = [Alloc_pages high_order_gfp_flags 4 (Some 4096),
        Alloc_pages low_order_gfp_flags 0 (Some 8192)] \<and>
   pools (world_of (ion_system_heap_allocate (new_buffer {CACHED}) 0x11000 0 0
             (boot_world [Some 4096, Some 8192] [Some 1, Some 2] [])))
     = ion_system_heap_create \<and>
   (\<exists>w'. ion_system_heap_free
            (filled_buffer {CACHED}
               [\<lparr>sg_page = 4096, sg_dma_len = 0x10000, sg_offset = 0\<rparr>,
                \<lparr>sg_page = 8192, sg_dma_len = 0x1000, sg_offset = 0\<rparr>])
            (boot_world [] [] []) = Inr ((), w') \<and>
          pools w' = ion_system_heap_create \<and>
          trace w' = [Free_pages 4096 4, Free_pages 8192 0, Kfree_table])"
proof -
  let ?T = "[\<lparr>sg_page = 4096, sg_dma_len = 0x10000, sg_offset = 0\<rparr>,
             \<lparr>sg_page = 8192, sg_dma_len = 0x1000 :: ulong, sg_offset = 0 :: ulong\<rparr>]"
  have c1: "ion_buffer_cached (new_buffer {CACHED})"
    and c2: "ion_buffer_cached (filled_buffer {CACHED} ?T)"
    and t: "sg_table (filled_buffer {CACHED} ?T) = Table ?T"
    by (simp_all add: ion_buffer_cached_def new_buffer_def filled_buffer_eq)
  have run: "trace (world_of (ion_system_heap_allocate (new_buffer {CACHED}) 0x11000 0 0
             (boot_world [Some 4096, Some 8192] [Some 1, Some 2] [])))
     = [Alloc_pages high_order_gfp_flags 4 (Some 4096),
        Alloc_pages low_order_gfp_flags 0 (Some 8192)]"
    by (simp add: eval_simps)
  have a: "pools (world_of (ion_system_heap_allocate (new_buffer {CACHED}) 0x11000 0 0
             (boot_world [Some 4096, Some 8192] [Some 1, Some 2] [])))
     = ion_system_heap_create"
    using cached_bypasses_pools [OF c1, of "0x11000"
        "boot_world [Some 4096, Some 8192] [Some 1, Some 2] []" 0 0]
    by (auto simp: boot_world_def)
  have f: "\<exists>w'. ion_system_heap_free (filled_buffer {CACHED} ?T) (boot_world [] [] [])
             = Inr ((), w') \<and> pools w' = ion_system_heap_create \<and>
          trace w' = [Free_pages 4096 4, Free_pages 8192 0, Kfree_table]"
  proof -
    from cached_bypasses_pools [OF c2, of 0 "boot_world [] [] []" 0 0 ?T] t
    obtain w' where "ion_system_heap_free (filled_buffer {CACHED} ?T) (boot_world [] [] [])
        = Inr ((), w')" "pools w' = pools (boot_world [] [] [])"
      "trace w' = trace (boot_world [] [] []) @ host_released (filled_buffer {CACHED} ?T) ?T
                    @ [Kfree_table]"
      by blast
    then show ?thesis
      by (intro exI [of _ w'])
         (simp add: boot_world_def host_released_def host_release_def filled_buffer_eq
            new_buffer_def ion_buffer_fault_user_mappings_def get_order_values)
  qed
  show ?thesis using run a f by simp
qed

subsection \<open>Size fidelity\<close>

text \<open>
  C1, at a request of 2 GiB with \<open>FAULT_USER_MAPPINGS\<close>: \<open>PAGE_ALIGN(size)\<close> is
  \<open>0x80000000\<close>, which \<open>long size_remaining\<close> reads as a negative number, so the
  packing loop is not entered and collects no run; with the table allocations
  succeeding the call returns 0 with a table of 524288 blank entries, whose lengths
  sum to 0 and not to the 2147483648 bytes of the padded size (and it latches
  readiness, no run being unlabelled). Lemma \<open>size_fidelity_in_range\<close> above gives
  the property for every request whose padded size is positive as a \<open>long\<close>.
\<close>

theorem size_fidelity_fails_on_huge_request:
  "pack_loop (new_buffer {FAULT_USER_MAPPINGS}) (PAGE_ALIGN 0x80000000) (hd orders) [] 0
       (boot_world [] [Some 16, Some 32] [])
     = Inr ((True, [], 0), boot_world [] [Some 16, Some 32] []) \<and>
   ion_system_heap_allocate (new_buffer {FAULT_USER_MAPPINGS}) 0x80000000 0 0
       (boot_world [] [Some 16, Some 32] [])
     = Inr ((0, (new_buffer {FAULT_USER_MAPPINGS})
                  \<lparr>priv_virt := Table (replicate 524288 sg_blank), ready := True\<rparr>),
            boot_world [] [] []) \<and>
   (\<Sum>sg\<leftarrow>replicate 524288 sg_blank. uint (sg_dma_len sg)) = 0 \<and>
   uint (PAGE_ALIGN 0x80000000) = 2147483648"
proof -
  have A: "PAGE_ALIGN 0x80000000 = 0x80000000"
    by (simp add: PAGE_ALIGN_def PAGE_SIZE_def PAGE_MASK_def)
  have neg: "\<not> 0 <s (0x80000000 :: ulong)" by (simp add: word_sless_alt)
  have pack: "pack_loop (new_buffer {FAULT_USER_MAPPINGS}) 0x80000000 (hd orders) [] 0
       (boot_world [] [Some 16, Some 32] [])
     = Inr ((True, [], 0), boot_world [] [Some 16, Some 32] [])"
    using neg by (simp add: pack_loop.simps [of _ "0x80000000"])
  have n: "unat ((0x80000000 :: ulong) div PAGE_SIZE) = 524288"
    by (simp add: PAGE_SIZE_def)
  have alloc: "ion_system_heap_allocate (new_buffer {FAULT_USER_MAPPINGS}) 0x80000000 0 0
       (boot_world [] [Some 16, Some 32] [])
     = Inr ((0, (new_buffer {FAULT_USER_MAPPINGS})
                  \<lparr>priv_virt := Table (replicate 524288 sg_blank), ready := True\<rparr>),
            boot_world [] [] [])"
    apply (simp add: ion_system_heap_allocate_def A pack)
    apply (simp add: A n kmalloc_def sg_alloc_table_def boot_world_def new_buffer_def
          ion_buffer_fault_user_mappings_def ion_buffer_sync_force_def ion_buffer_set_ready_def)
    done
  have u: "uint (0x80000000 :: ulong) = 2147483648" by simp
  show ?thesis unfolding A by (intro conjI pack alloc sum_blank u)
qed

subsection \<open>The from_pool label\<close>

text \<open>
  C2, when a race is lost: the order-8 pool holds one run when
  \<open>alloc_largest_available\<close> inspects it, so \<open>from_pool\<close> becomes true; before
  \<open>alloc_buffer_page\<close> runs another thread takes that run, and the host refuses a
  fresh order-8 run; the loop goes on to order 4, whose pool is empty, and the host
  serves a fresh order-4 run. \<open>from_pool\<close> is not reset between orders, so the run is
  labelled as coming from a pool although the pool of its own order held nothing.
  Lemma \<open>label_exact_when_undisturbed\<close> above shows that without such a race the
  label is the state of the serving order's pool.
\<close>

theorem label_carries_over_after_lost_race:
  "(case alloc_largest_available (new_buffer {}) 0x100000 8
            ((boot_world [None, Some 4096] [] [Some 0])\<lparr>pools := warm_pools\<rparr>) of
      Inr (Some pg, w') \<Rightarrow>
        pfn pg = 4096 \<and> ion_page_order pg = 4 \<and> ion_get_from_pool pg \<and>
        trace w' = [Alloc_pages high_order_gfp_flags 8 None,
                    Alloc_pages high_order_gfp_flags 4 (Some 4096)]
    | _ \<Rightarrow> False) \<and>
   order_to_index 4 = Inr 1 \<and>
   high_count (warm_pools 1) + low_count (warm_pools 1) = 0 \<and>
   pool_wf (warm_pools 0) \<and> pool_wf (warm_pools 1) \<and> pool_wf (warm_pools 2)"
  by (simp add: eval_simps warm_pools_def pool_wf_def order_to_index_eq)

end
